theory Spec2Isabelle
  imports Main "HOL-Library.Multiset" "HOL-Library.Sublist"
begin

section \<open>Data model (types.ts)\<close>

datatype Suit = hearts | diamonds | clubs | spades

datatype Rank = R2 | R3 | R4 | R5 | R6 | R7 | R8 | R9 | R10 | RJ | RQ | RK | RA

text \<open>A card; the field \<open>id\<close> of the source is called \<open>id_card\<close> here.\<close>

record CardModel =
  id_card :: string
  suit :: Suit
  rank :: Rank

datatype PlayerID = south | west | north | east

text \<open>
  The state of the game. The source keeps each field in a React state cell of its own;
  the record collects the cells that \<open>GameState\<close> of types.ts names. The flags that
  belong to the presentation only (\<open>isAnimating\<close>, \<open>showTutorial\<close>, \<open>isMenuOpen\<close>,
  announcements, flying cards) are left out: every operation below is taken at a moment
  when no animation runs and no overlay is open, and after the deal it runs to its end as
  one transition. A draw that starts during the deal does not: see the section on the deck
  click during the deal.
\<close>

record GameState =
  deck :: "CardModel list"
  discardPile :: "CardModel list"
  hands :: "PlayerID \<Rightarrow> CardModel list"
  currentTurn :: PlayerID
  activeSuit :: Suit
  winner :: "PlayerID option"
  isSuitSelectionOpen :: bool
  gameLog :: "string list"
  isDealing :: bool
  attackStack :: int

section \<open>Strings of the template literals\<close>

fun suitStr :: "Suit \<Rightarrow> string" where
  "suitStr hearts = ''hearts''"
| "suitStr diamonds = ''diamonds''"
| "suitStr clubs = ''clubs''"
| "suitStr spades = ''spades''"

fun rankStr :: "Rank \<Rightarrow> string" where
  "rankStr R2 = ''2''"
| "rankStr R3 = ''3''"
| "rankStr R4 = ''4''"
| "rankStr R5 = ''5''"
| "rankStr R6 = ''6''"
| "rankStr R7 = ''7''"
| "rankStr R8 = ''8''"
| "rankStr R9 = ''9''"
| "rankStr R10 = ''10''"
| "rankStr RJ = ''J''"
| "rankStr RQ = ''Q''"
| "rankStr RK = ''K''"
| "rankStr RA = ''A''"

definition digitChar :: "nat \<Rightarrow> char" where
  "digitChar d = char_of (48 + d)"

text \<open>Decimal rendering of a non-negative number, as a template literal prints it.\<close>

fun showNat :: "nat \<Rightarrow> string" where
  "showNat n = (if n < 10 then [digitChar n] else showNat (n div 10) @ [digitChar (n mod 10)])"

declare showNat.simps [simp del]

section \<open>Deck factory (utils.ts)\<close>

definition SUITS :: "Suit list" where
  "SUITS = [hearts, diamonds, clubs, spades]"

definition RANKS :: "Rank list" where
  "RANKS = [R2, R3, R4, R5, R6, R7, R8, R9, R10, RJ, RQ, RK, RA]"

text \<open>
  \<open>createDeck\<close>: the two nested loops, threading the deck built so far and \<open>idCounter\<close>.
\<close>

definition pushCard :: "Suit \<Rightarrow> CardModel list \<times> nat \<Rightarrow> Rank \<Rightarrow> CardModel list \<times> nat" where
  "pushCard s acc r =
     (fst acc @ [\<lparr>id_card = ''card-'' @ showNat (snd acc), suit = s, rank = r\<rparr>], snd acc + 1)"

definition createDeck :: "CardModel list" where
  "createDeck = fst (foldl (\<lambda>acc s. foldl (pushCard s) acc RANKS) ([], 0) SUITS)"

text \<open>
  \<open>shuffleDeck\<close>: Fisher-Yates from the end. \<open>Math.random\<close> is an input of the model: a
  list of natural numbers, of which each iteration consumes one; at index \<open>i\<close> the number
  \<open>r\<close> stands for the value \<open>j = r mod (i + 1)\<close> of \<open>Math.floor(Math.random() * (i + 1))\<close>,
  so that every \<open>j\<close> in \<open>0..i\<close> can occur (an exhausted list yields 0).
  The first argument of the loop is the loop variable \<open>i\<close>; the loop runs while \<open>i > 0\<close>.
\<close>

definition randomIndex :: "nat list \<Rightarrow> nat \<Rightarrow> nat" where
  "randomIndex rs i = (case rs of [] \<Rightarrow> 0 | r # _ \<Rightarrow> r mod (i + 1))"

fun shuffleLoop :: "nat \<Rightarrow> nat list \<Rightarrow> 'a list \<Rightarrow> 'a list" where
  "shuffleLoop 0 rs newDeck = newDeck"
| "shuffleLoop (Suc k) rs newDeck =
     (let i = Suc k; j = randomIndex rs i
      in shuffleLoop k (tl rs) (newDeck[i := newDeck ! j, j := newDeck ! i]))"

definition shuffleDeck :: "nat list \<Rightarrow> 'a list \<Rightarrow> 'a list" where
  "shuffleDeck rs deck0 = shuffleLoop (length deck0 - 1) rs deck0"

section \<open>Move legality oracle (utils.ts)\<close>

text \<open>\<open>topCard\<close> is \<open>CardModel | undefined\<close>: an option.\<close>

definition isValidMove :: "CardModel \<Rightarrow> CardModel option \<Rightarrow> Suit \<Rightarrow> int \<Rightarrow> bool" where
  "isValidMove c topCard actSuit atk =
     (case topCard of
        None \<Rightarrow> False
      | Some t \<Rightarrow>
          if atk > 0 then rank c = R2
          else if rank c = RJ then True
          else if suit c = actSuit then True
          else if rank c = rank t then True
          else False)"

text \<open>
  The reference predicate, written from the words of the specification (section 4.2), to
  be compared with \<open>isValidMove\<close>.
\<close>

definition legal_spec :: "CardModel \<Rightarrow> CardModel option \<Rightarrow> Suit \<Rightarrow> int \<Rightarrow> bool" where
  "legal_spec c topCard actSuit atk =
     (topCard \<noteq> None \<and>
      (if atk > 0 then rank c = R2
       else (rank c = RJ \<or> suit c = actSuit \<or> Some (rank c) = map_option rank topCard)))"

text \<open>\<open>getNextPlayer\<close>: the index of the player in the fixed order, plus the steps, modulo 4.\<close>

definition order :: "PlayerID list" where
  "order = [south, west, north, east]"

fun indexOf :: "PlayerID \<Rightarrow> nat" where
  "indexOf south = 0"
| "indexOf west = 1"
| "indexOf north = 2"
| "indexOf east = 3"

definition getNextPlayer :: "PlayerID \<Rightarrow> bool \<Rightarrow> PlayerID" where
  "getNextPlayer current skip =
     (let idx = indexOf current; steps = (if skip then 2 else 1 :: nat)
      in order ! ((idx + steps) mod 4))"

fun getPlayerName :: "PlayerID \<Rightarrow> string" where
  "getPlayerName south = ''You''"
| "getPlayerName west = ''West AI''"
| "getPlayerName north = ''North AI''"
| "getPlayerName east = ''East AI''"

section \<open>Helpers of the game component (App.tsx)\<close>

text \<open>
  \<open>addLog\<close>: the updater passed to \<open>setGameLog\<close>. It appends the message and, when the log
  then holds more than 50 entries, \<open>shift\<close>s the oldest one away.
\<close>

definition addLog :: "string \<Rightarrow> string list \<Rightarrow> string list" where
  "addLog msg prev = (let newLog = prev @ [msg] in if length newLog > 50 then tl newLog else newLog)"

text \<open>\<open>xs[xs.length - 1]\<close>, which is \<open>undefined\<close> on an empty array.\<close>

definition topOf :: "'a list \<Rightarrow> 'a option" where
  "topOf xs = (if xs = [] then None else Some (last xs))"

text \<open>\<open>xs[0]\<close>, which is \<open>undefined\<close> on an empty array.\<close>

definition firstOf :: "'a list \<Rightarrow> 'a option" where
  "firstOf xs = (case xs of [] \<Rightarrow> None | x # _ \<Rightarrow> Some x)"

section \<open>Draw and reshuffle engine (App.tsx)\<close>

text \<open>
  \<open>reshuffleDiscard\<close> returns \<open>null\<close> or the pair of the new deck and the top card. It
  calls \<open>addLog\<close>, so the log is passed through; the random numbers that the shuffle did
  not consume are returned as well.
\<close>

definition reshuffleDiscard ::
  "nat list \<Rightarrow> CardModel list \<Rightarrow> string list
     \<Rightarrow> (CardModel list \<times> CardModel) option \<times> string list \<times> nat list" where
  "reshuffleDiscard rs currentDiscard lg =
     (if length currentDiscard \<le> 1 then (None, lg, rs)
      else
        let topCard = last currentDiscard;
            rest = take (length currentDiscard - 1) currentDiscard;
            newDeck = shuffleDeck rs rest
        in (Some (newDeck, topCard),
            addLog ''Deck reshuffled from discard pile.'' lg,
            drop (length rest - 1) rs))"

text \<open>
  The object that \<open>drawCardForPlayerLogic\<close> returns (\<open>card_drawn\<close> is its field \<open>card\<close>),
  with the log and the random numbers left over.
\<close>

record DrawResult =
  card_drawn :: "CardModel option"
  newDeck :: "CardModel list"
  newDiscard :: "CardModel list"
  reshuffled :: bool
  log_after :: "string list"
  rand_after :: "nat list"

definition popCard ::
  "CardModel list \<Rightarrow> CardModel list \<Rightarrow> bool \<Rightarrow> string list \<Rightarrow> nat list \<Rightarrow> DrawResult" where
  "popCard d dp resh lg rs =
     (if length d = 0
      then \<lparr>card_drawn = None, newDeck = d, newDiscard = dp, reshuffled = resh,
            log_after = lg, rand_after = rs\<rparr>
      else \<lparr>card_drawn = Some (last d), newDeck = butlast d, newDiscard = dp, reshuffled = resh,
            log_after = lg, rand_after = rs\<rparr>)"

definition drawCardForPlayerLogic ::
  "nat list \<Rightarrow> CardModel list \<Rightarrow> CardModel list \<Rightarrow> string list \<Rightarrow> DrawResult" where
  "drawCardForPlayerLogic rs currentDeck currentDiscard lg =
     (if length currentDeck = 0 then
        (case reshuffleDiscard rs currentDiscard lg of
           (None, lg', rs') \<Rightarrow>
             \<lparr>card_drawn = None, newDeck = currentDeck, newDiscard = currentDiscard,
              reshuffled = False, log_after = lg', rand_after = rs'\<rparr>
         | (Some (nd, topCard), lg', rs') \<Rightarrow> popCard nd [topCard] True lg' rs')
      else popCard currentDeck currentDiscard False lg rs)"

text \<open>The local variables of the loop of \<open>performDraw\<close>.\<close>

record DrawLoop =
  currentD :: "CardModel list"
  currentDP :: "CardModel list"
  drawnCards :: "CardModel list"
  didReshuffle :: bool
  log_loop :: "string list"
  rand_loop :: "nat list"

text \<open>
  The loop \<open>for (i = 0; i < count; i++)\<close> of \<open>performDraw\<close>; the first argument is the
  number of iterations left. It \<open>break\<close>s when no card was produced.
\<close>

fun drawLoop :: "nat \<Rightarrow> DrawLoop \<Rightarrow> DrawLoop" where
  "drawLoop 0 l = l"
| "drawLoop (Suc n) l =
     (let res = drawCardForPlayerLogic (rand_loop l) (currentD l) (currentDP l) (log_loop l);
          l1 = l\<lparr>currentD := newDeck res, log_loop := log_after res, rand_loop := rand_after res\<rparr>;
          l2 = (if reshuffled res then l1\<lparr>didReshuffle := True, currentDP := newDiscard res\<rparr> else l1)
      in case card_drawn res of
           Some c \<Rightarrow> drawLoop n (l2\<lparr>drawnCards := drawnCards l2 @ [c]\<rparr>)
         | None \<Rightarrow> l2)"

section \<open>Turn and effect state machine (App.tsx)\<close>

definition advanceTurn :: "CardModel option \<Rightarrow> PlayerID \<Rightarrow> GameState \<Rightarrow> GameState" where
  "advanceTurn playedCard currentPlayer s =
     (case playedCard of
        None \<Rightarrow> s\<lparr>currentTurn := getNextPlayer currentPlayer False\<rparr>
      | Some c \<Rightarrow>
          if rank c = RA then
            s\<lparr>gameLog := addLog (getPlayerName currentPlayer @ '' played Ace! Next player skipped.'')
                          (gameLog s),
              currentTurn := getNextPlayer currentPlayer True\<rparr>
          else if rank c = R2 then
            s\<lparr>attackStack := attackStack s + 2,
              currentTurn := getNextPlayer currentPlayer False\<rparr>
          else s\<lparr>currentTurn := getNextPlayer currentPlayer False\<rparr>)"

text \<open>
  The suit a non-human player chooses after a Jack: the counts of the suits in the new hand,
  scanned in the key order of \<open>suitsInHand\<close> with a strict comparison, starting from
  \<open>hearts\<close> and \<open>max = -1\<close>.
\<close>

definition suitsInHand :: "CardModel list \<Rightarrow> Suit \<Rightarrow> int" where
  "suitsInHand newHand s = int (length (filter (\<lambda>c. suit c = s) newHand))"

definition bestSuitOf :: "CardModel list \<Rightarrow> Suit" where
  "bestSuitOf newHand =
     fst (foldl (\<lambda>(bestSuit, mx) s.
                   if suitsInHand newHand s > mx then (s, suitsInHand newHand s) else (bestSuit, mx))
                (hearts, -1) [hearts, diamonds, clubs, spades])"

definition executePlay :: "CardModel \<Rightarrow> PlayerID \<Rightarrow> GameState \<Rightarrow> GameState" where
  "executePlay c pid s =
     (let newHand = filter (\<lambda>x. id_card x \<noteq> id_card c) (hands s pid);
          s1 = s\<lparr>hands := (hands s)(pid := newHand), discardPile := discardPile s @ [c]\<rparr>
      in if length newHand = 0 then s1\<lparr>winner := Some pid\<rparr>
         else if rank c = RJ then
           (if pid = south then s1\<lparr>isSuitSelectionOpen := True\<rparr>
            else
              let bestSuit = bestSuitOf newHand
              in advanceTurn (Some c) pid
                   (s1\<lparr>activeSuit := bestSuit,
                       gameLog := addLog (getPlayerName pid @ '' played Jack and chose ''
                                            @ suitStr bestSuit @ ''.'') (gameLog s1)\<rparr>))
         else
           advanceTurn (Some c) pid
             (s1\<lparr>activeSuit := suit c,
                 gameLog := addLog (getPlayerName pid @ '' played '' @ rankStr (rank c)
                                      @ '' of '' @ suitStr (suit c) @ ''.'') (gameLog s1)\<rparr>))"

definition performDraw :: "nat list \<Rightarrow> PlayerID \<Rightarrow> int \<Rightarrow> GameState \<Rightarrow> GameState" where
  "performDraw rs pid cnt s =
     (let l = drawLoop (nat cnt)
                \<lparr>currentD = deck s, currentDP = discardPile s, drawnCards = [],
                 didReshuffle = False, log_loop = gameLog s, rand_loop = rs\<rparr>;
          s1 = s\<lparr>gameLog := log_loop l\<rparr>;
          s2 = (if didReshuffle l then s1\<lparr>discardPile := currentDP l\<rparr> else s1);
          s3 = s2\<lparr>deck := currentD l, hands := (hands s2)(pid := hands s2 pid @ drawnCards l)\<rparr>;
          s4 = (if attackStack s > 0
                then s3\<lparr>gameLog := addLog (getPlayerName pid @ '' drew ''
                                            @ showNat (length (drawnCards l))
                                            @ '' cards (Attack Penalty).'') (gameLog s3),
                        attackStack := 0\<rparr>
                else s3\<lparr>gameLog := addLog (getPlayerName pid @ '' drew a card.'') (gameLog s3)\<rparr>)
      in advanceTurn None pid s4)"

section \<open>Handlers of the human player's intents (App.tsx)\<close>

definition handleCardClick :: "CardModel \<Rightarrow> GameState \<Rightarrow> GameState" where
  "handleCardClick c s =
     (if currentTurn s \<noteq> south \<or> winner s \<noteq> None \<or> isSuitSelectionOpen s then s
      else
        let topCard = topOf (discardPile s)
        in if topCard \<noteq> None \<and> isValidMove c topCard (activeSuit s) (attackStack s)
           then executePlay c south s
           else s)"

definition handleDeckClick :: "nat list \<Rightarrow> GameState \<Rightarrow> GameState" where
  "handleDeckClick rs s =
     (if currentTurn s \<noteq> south \<or> winner s \<noteq> None \<or> isSuitSelectionOpen s then s
      else
        let drawCount = (if attackStack s > 0 then attackStack s else 1)
        in performDraw rs south drawCount s)"

text \<open>
  \<open>handleSuitSelect\<close> passes \<open>{ rank: 'J', suit } as CardModel\<close> to \<open>advanceTurn\<close>: a card
  without an id, written here with the empty string.
\<close>

definition handleSuitSelect :: "Suit \<Rightarrow> GameState \<Rightarrow> GameState" where
  "handleSuitSelect su s =
     advanceTurn (Some \<lparr>id_card = [], suit = su, rank = RJ\<rparr>) south
       (s\<lparr>activeSuit := su, isSuitSelectionOpen := False,
          gameLog := addLog (''You changed suit to '' @ suitStr su @ ''.'') (gameLog s)\<rparr>)"

section \<open>Decision policy of the non-human players (App.tsx)\<close>

text \<open>
  The choice of \<open>performAITurn\<close> among the valid moves; \<open>find\<close> and \<open>[0]\<close> give
  \<open>undefined\<close> as \<open>None\<close>. \<open>t\<close> is the top card.
\<close>

definition aiChoice :: "CardModel list \<Rightarrow> CardModel \<Rightarrow> Suit \<Rightarrow> int \<Rightarrow> CardModel option" where
  "aiChoice validMoves t actSuit atk =
     (let choice =
            (if atk > 0 then firstOf validMoves
             else
               let nonJacks = filter (\<lambda>c. rank c \<noteq> RJ) validMoves
               in if length nonJacks > 0 then
                    (case List.find (\<lambda>c. suit c = actSuit) nonJacks of
                       Some c \<Rightarrow> Some c
                     | None \<Rightarrow>
                         (case List.find (\<lambda>c. rank c = rank t) nonJacks of
                            Some c \<Rightarrow> Some c
                          | None \<Rightarrow> firstOf nonJacks))
                  else firstOf validMoves)
      in case choice of None \<Rightarrow> firstOf validMoves | Some c \<Rightarrow> Some c)"

text \<open>
  The effect that runs a non-human turn, with its guard. The branch in which
  \<open>validMoves\<close> is non-empty and no choice is made does not occur (\<open>aiChoice\<close> returns a
  card there, see \<open>aiChoice_defined\<close>); the model leaves the state as it is.
\<close>

definition performAITurn :: "nat list \<Rightarrow> GameState \<Rightarrow> GameState" where
  "performAITurn rs s =
     (if currentTurn s = south \<or> winner s \<noteq> None \<or> isDealing s then s
      else
        let pid = currentTurn s;
            hand = hands s pid;
            topCard = topOf (discardPile s)
        in case topCard of
             None \<Rightarrow> s
           | Some t \<Rightarrow>
               let validMoves = filter (\<lambda>c. isValidMove c topCard (activeSuit s) (attackStack s)) hand
               in if length validMoves > 0 then
                    (case aiChoice validMoves t (activeSuit s) (attackStack s) of
                       Some c \<Rightarrow> executePlay c pid s
                     | None \<Rightarrow> s)
                  else
                    let drawCount = (if attackStack s > 0 then attackStack s else 1)
                    in performDraw rs pid drawCount s)"

section \<open>Win detector (App.tsx)\<close>

text \<open>
  The effect on \<open>hands\<close>, \<open>discardPile\<close> and \<open>isDealing\<close>: it visits the entries of
  \<open>hands\<close> in key order and sets the winner for each empty hand.
\<close>

definition winnerEffect :: "GameState \<Rightarrow> GameState" where
  "winnerEffect s =
     (if isDealing s then s
      else foldl (\<lambda>s' pid. if length (hands s pid) = 0 \<and> length (discardPile s) > 0
                            then s'\<lparr>winner := Some pid\<rparr> else s')
                 s order)"

section \<open>The deal (App.tsx)\<close>

definition HAND_SIZE :: nat where
  "HAND_SIZE = 8"

text \<open>The initial values of the state cells.\<close>

definition initialState :: GameState where
  "initialState =
     \<lparr>deck = [], discardPile = [], hands = (\<lambda>_. []), currentTurn = south, activeSuit = spades,
      winner = None, isSuitSelectionOpen = False, gameLog = [], isDealing = False,
      attackStack = 0\<rparr>"

definition startDeal :: "nat list \<Rightarrow> GameState \<Rightarrow> GameState" where
  "startDeal rs s =
     s\<lparr>winner := None, gameLog := [], isDealing := True, hands := (\<lambda>_. []), attackStack := 0,
       deck := shuffleDeck rs createDeck, discardPile := []\<rparr>"

text \<open>One tick of the dealing interval, for \<open>dealIndex < totalCardsToDeal\<close>.\<close>

definition dealTick :: "GameState \<Rightarrow> nat \<Rightarrow> GameState" where
  "dealTick s dealIndex =
     (let targetPlayer = order ! (dealIndex mod 4)
      in if deck s = [] then s
         else s\<lparr>deck := butlast (deck s),
                hands := (hands s)(targetPlayer := hands s targetPlayer @ [last (deck s)])\<rparr>)"

definition finishDealing :: "GameState \<Rightarrow> GameState" where
  "finishDealing s =
     (if deck s = [] then s\<lparr>isDealing := False, currentTurn := south\<rparr>
      else
        let startCard = last (deck s); finalDeck = butlast (deck s)
        in s\<lparr>deck := finalDeck, discardPile := [startCard], activeSuit := suit startCard,
             gameLog := (if rank startCard = R2
                         then addLog ''Game starts with a 2! First player must play 2 or draw 2.''
                                (gameLog s)
                         else addLog (''Game Started. Top card: '' @ rankStr (rank startCard)
                                        @ '' of '' @ suitStr (suit startCard)) (gameLog s)),
             attackStack := (if rank startCard = R2 then 2 else 0),
             isDealing := False, currentTurn := south\<rparr>)"

text \<open>
  The whole deal after the component is mounted: \<open>startDeal\<close>, the
  \<open>HAND_SIZE * 4\<close> ticks, \<open>finishDealing\<close>, and the win detector's effect.
\<close>

definition deal :: "nat list \<Rightarrow> GameState" where
  "deal rs = winnerEffect (finishDealing (foldl dealTick (startDeal rs initialState) [0..<HAND_SIZE * 4]))"

section \<open>The operations as transitions\<close>

text \<open>
  The intents the engine consumes after the deal. A card can be clicked only when the view
  has drawn it, which it does for the cards of \<open>hands.south\<close>; the suit buttons exist only
  while \<open>isSuitSelectionOpen\<close> holds. Each transition is followed by the win detector's
  effect. The list of numbers is the randomness the transition may use.
\<close>

datatype Event = ClickCard CardModel | ClickDeck | SelectSuit Suit | AITurn

definition step :: "nat list \<Rightarrow> Event \<Rightarrow> GameState \<Rightarrow> GameState" where
  "step rs e s =
     winnerEffect
       (case e of
          ClickCard c \<Rightarrow> if c \<in> set (hands s south) then handleCardClick c s else s
        | ClickDeck \<Rightarrow> handleDeckClick rs s
        | SelectSuit su \<Rightarrow> if isSuitSelectionOpen s then handleSuitSelect su s else s
        | AITurn \<Rightarrow> performAITurn rs s)"

fun run :: "(nat list \<times> Event) list \<Rightarrow> GameState \<Rightarrow> GameState" where
  "run [] s = s"
| "run ((rs, e) # es) s = run es (step rs e s)"

section \<open>A deck click during the deal\<close>

text \<open>
  \<open>performDraw\<close> is asynchronous. It reads \<open>deck\<close> and \<open>discardPile\<close> and runs its loop
  (\<open>drawn\<close>: the local variables when the loop has ended); then it waits 500 ms for the
  animation; then it commits (\<open>performDrawCommit\<close>): \<open>setDiscardPile\<close> and \<open>setDeck\<close>
  with the values computed before the wait, \<open>setHands\<close> and \<open>addLog\<close> as updaters of the
  state at the commit, \<open>setAttackStack(0)\<close> when the \<open>attackStack\<close> read before the
  wait was positive, and \<open>advanceTurn\<close>. After the deal nothing else runs during the wait
  (\<open>isAnimating\<close> stops the handlers and the non-human effect), and the whole is the one
  transition \<open>performDraw\<close>, see \<open>performDraw_split\<close>.
\<close>

definition drawn :: "nat list \<Rightarrow> int \<Rightarrow> GameState \<Rightarrow> DrawLoop" where
  "drawn rs n s =
     drawLoop (nat n)
       \<lparr>currentD = deck s, currentDP = discardPile s, drawnCards = [],
        didReshuffle = False, log_loop = gameLog s, rand_loop = rs\<rparr>"

text \<open>
  The commit of \<open>performDraw\<close> on the state \<open>s\<close> of that moment; \<open>l\<close> holds the local
  variables and \<open>atk\<close> is the \<open>attackStack\<close> that \<open>performDraw\<close> read when it started.
\<close>

definition performDrawCommit :: "PlayerID \<Rightarrow> DrawLoop \<Rightarrow> int \<Rightarrow> GameState \<Rightarrow> GameState" where
  "performDrawCommit pid l atk s =
     (let s2 = (if didReshuffle l then s\<lparr>discardPile := currentDP l\<rparr> else s);
          s3 = s2\<lparr>deck := currentD l, hands := (hands s2)(pid := hands s2 pid @ drawnCards l)\<rparr>;
          s4 = (if atk > 0
                then s3\<lparr>gameLog := addLog (getPlayerName pid @ '' drew ''
                                            @ showNat (length (drawnCards l))
                                            @ '' cards (Attack Penalty).'') (gameLog s3),
                        attackStack := 0\<rparr>
                else s3\<lparr>gameLog := addLog (getPlayerName pid @ '' drew a card.'') (gameLog s3)\<rparr>)
      in advanceTurn None pid s4)"

text \<open>
  The callback of the dealing interval: a tick while \<open>dealIndex < totalCardsToDeal\<close>, then
  \<open>finishDealing\<close> (and the interval is cleared, so the last index is \<open>HAND_SIZE * 4\<close>).
\<close>

definition dealCallback :: "GameState \<Rightarrow> nat \<Rightarrow> GameState" where
  "dealCallback s dealIndex =
     (if dealIndex \<ge> HAND_SIZE * 4 then finishDealing s else dealTick s dealIndex)"

text \<open>
  \<open>handleDeckClick\<close> does not test \<open>isDealing\<close>, and the deck can be clicked at any time.
  The deal with a click on the deck after \<open>k\<close> callbacks of the interval: \<open>performDraw\<close>
  starts on the state of that moment, \<open>m\<close> further callbacks run during its wait (12 or 13
  of them fit into 500 ms), then it commits, and the remaining callbacks follow. \<open>rs\<close> is
  the randomness of the shuffle and \<open>rs'\<close> that of the draw. Until the commit
  \<open>isAnimating\<close> refuses a second click, and after it the turn is West's until
  \<open>finishDealing\<close>, so one click is all the deal can take.
\<close>

definition deckClickDuringDeal :: "nat list \<Rightarrow> nat list \<Rightarrow> nat \<Rightarrow> nat \<Rightarrow> GameState" where
  "deckClickDuringDeal rs rs' k m =
     (let s1 = foldl dealCallback (startDeal rs initialState) [0..<k]
      in if currentTurn s1 \<noteq> south \<or> winner s1 \<noteq> None \<or> isSuitSelectionOpen s1
         then winnerEffect (foldl dealCallback s1 [k..<HAND_SIZE * 4 + 1])
         else
           let drawCount = (if attackStack s1 > 0 then attackStack s1 else 1);
               l = drawn rs' drawCount s1;
               s2 = foldl dealCallback (s1\<lparr>gameLog := log_loop l\<rparr>) [k..<k + m];
               s3 = performDrawCommit south l (attackStack s1) s2
           in winnerEffect (foldl dealCallback s3 [k + m..<HAND_SIZE * 4 + 1]))"

section \<open>Reachable states\<close>

text \<open>
  The states after the deal: the deal, alone or with a click on the deck while it runs
  (after at most \<open>HAND_SIZE * 4\<close> callbacks, committed before or after \<open>finishDealing\<close>),
  followed by any transitions.
\<close>

inductive reachable :: "GameState \<Rightarrow> bool" where
  reachable_deal: "reachable (deal rs)"
| reachable_deal_click:
    "k \<le> HAND_SIZE * 4 \<Longrightarrow> k + m \<le> HAND_SIZE * 4 + 1 \<Longrightarrow> reachable (deckClickDuringDeal rs rs' k m)"
| reachable_step: "reachable s \<Longrightarrow> reachable (step rs e s)"

text \<open>The same when nobody clicks the deck during the deal.\<close>

inductive undisturbed :: "GameState \<Rightarrow> bool" where
  undisturbed_deal: "undisturbed (deal rs)"
| undisturbed_step: "undisturbed s \<Longrightarrow> undisturbed (step rs e s)"

text \<open>All cards of a state: the deck, the four hands and the discard pile.\<close>

definition allCards :: "GameState \<Rightarrow> CardModel list" where
  "allCards s = deck s @ hands s south @ hands s west @ hands s north @ hands s east @ discardPile s"

section \<open>Definitions used to state and prove the properties\<close>

text \<open>The card a draw produced, as a multiset: empty when no card was produced.\<close>

definition optCards :: "CardModel option \<Rightarrow> CardModel multiset" where
  "optCards x = (case x of None \<Rightarrow> {#} | Some c \<Rightarrow> {#c#})"

text \<open>The state when the last card has been dealt and \<open>finishDealing\<close> has not yet run.\<close>

definition dealt :: "nat list \<Rightarrow> GameState" where
  "dealt rs = foldl dealTick (startDeal rs initialState) [0..<HAND_SIZE * 4]"

text \<open>
  The invariant of all states after the deal: an empty hand belongs to the winner; the
  suit choice is pending only on the human player's turn and before anybody has won; the
  attack stack is even and not negative; the deal is over and the discard pile is not
  empty.
\<close>

definition gameInv :: "GameState \<Rightarrow> bool" where
  "gameInv s \<longleftrightarrow>
     (\<forall>p. hands s p = [] \<longrightarrow> winner s = Some p) \<and>
     (isSuitSelectionOpen s \<longrightarrow> currentTurn s = south \<and> winner s = None) \<and>
     0 \<le> attackStack s \<and> even (attackStack s) \<and> \<not> isDealing s \<and> discardPile s \<noteq> []"

text \<open>
  The invariant of the states after an undisturbed deal: moreover the cards are those of
  \<open>createDeck\<close>.
\<close>

definition wellFormed :: "GameState \<Rightarrow> bool" where
  "wellFormed s \<longleftrightarrow>
     mset (allCards s) = mset createDeck \<and>
     (\<forall>p. hands s p = [] \<longrightarrow> winner s = Some p) \<and>
     (isSuitSelectionOpen s \<longrightarrow> currentTurn s = south \<and> winner s = None) \<and>
     0 \<le> attackStack s \<and> even (attackStack s) \<and> \<not> isDealing s \<and> discardPile s \<noteq> []"

text \<open>
  A count of the cards of a state: all cards, the distinct ids among them, the deck, the
  four hands and the discard pile.
\<close>

definition census :: "GameState \<Rightarrow> nat \<times> nat \<times> nat \<times> nat list \<times> nat" where
  "census s =
     (length (allCards s), length (remdups (map id_card (allCards s))), length (deck s),
      map (\<lambda>p. length (hands s p)) order, length (discardPile s))"

text \<open>
  The messages a transition logs: the log it leaves when it starts from the same state with
  an empty log.
\<close>

definition narrate :: "nat list \<Rightarrow> Event \<Rightarrow> GameState \<Rightarrow> string list" where
  "narrate rs e s = gameLog (step rs e (s\<lparr>gameLog := []\<rparr>))"

text \<open>Several messages logged one after the other.\<close>

definition addLogs :: "string list \<Rightarrow> string list \<Rightarrow> string list" where
  "addLogs msgs lg = foldl (\<lambda>l m. addLog m l) lg msgs"

text \<open>
  A function of the log that does nothing but log at most \<open>n\<close> messages, the same ones
  whatever the log.
\<close>

definition appends :: "nat \<Rightarrow> (string list \<Rightarrow> string list) \<Rightarrow> bool" where
  "appends n f \<longleftrightarrow> (\<exists>msgs. length msgs \<le> n \<and> (\<forall>lg. f lg = addLogs msgs lg))"

text \<open>
  What a state shows to the player \<open>p\<close>: the own hand, the top of the discard pile, whose
  turn it is, the active suit, the attack stack, the winner and whether a suit choice is
  pending.
\<close>

definition observe ::
  "PlayerID \<Rightarrow> GameState
     \<Rightarrow> CardModel list \<times> CardModel option \<times> PlayerID \<times> Suit \<times> int \<times> PlayerID option \<times> bool" where
  "observe p s =
     (hands s p, topOf (discardPile s), currentTurn s, activeSuit s, attackStack s, winner s,
      isSuitSelectionOpen s)"

text \<open>
  The length of the log before a transition, and whether the log before it is still the
  beginning of the log after it.
\<close>

definition logCheck :: "nat list \<Rightarrow> Event \<Rightarrow> GameState \<Rightarrow> nat \<times> bool" where
  "logCheck rs e s = (length (gameLog s), prefix (gameLog s) (gameLog (step rs e s)))"

section \<open>Concrete games and states\<close>

definition cardOf :: "string \<Rightarrow> Suit \<Rightarrow> Rank \<Rightarrow> CardModel" where
  "cardOf n s r = \<lparr>id_card = n, suit = s, rank = r\<rparr>"

text \<open>
  A whole game on the deal in which every random index is 0: the human player plays seven
  cards, chooses hearts after the Jack, and is left with the 2 of hearts
  (\<open>stateBeforeLast\<close>); playing it ends the game (\<open>stateWon\<close>). After the first of
  these plays it is West's turn (\<open>stateWestToMove\<close>).
\<close>

definition twoOfHearts :: CardModel where
  "twoOfHearts = cardOf ''card-0'' hearts R2"

definition gameBeforeLast :: "(nat list \<times> Event) list" where
  "gameBeforeLast = map (Pair [])
     [ClickCard (cardOf ''card-24'' diamonds RK), AITurn, AITurn, AITurn,
      ClickCard (cardOf ''card-36'' clubs RQ), AITurn, AITurn,
      ClickCard (cardOf ''card-32'' clubs R8), AITurn, AITurn, AITurn,
      ClickCard (cardOf ''card-28'' clubs R4), AITurn, AITurn, AITurn,
      ClickCard (cardOf ''card-44'' spades R7), AITurn, AITurn,
      ClickCard (cardOf ''card-40'' spades R3), AITurn, AITurn, AITurn,
      ClickCard (cardOf ''card-48'' spades RJ), SelectSuit hearts, AITurn, AITurn, AITurn]"

definition stateWestToMove :: GameState where
  "stateWestToMove = run (take 1 gameBeforeLast) (deal [])"

definition stateBeforeLast :: GameState where
  "stateBeforeLast = run gameBeforeLast (deal [])"

definition stateWon :: GameState where
  "stateWon = run (gameBeforeLast @ [([], ClickCard twoOfHearts)]) (deal [])"

text \<open>
  A long game on another deal: the human player only draws. After these 47 transitions
  the log holds 50 entries.
\<close>

definition longSeed :: "nat list" where
  "longSeed = map (\<lambda>i. i * 5) [0..<51]"

definition longGame :: "(nat list \<times> Event) list" where
  "longGame = map (Pair [])
     [ClickDeck, AITurn, AITurn, AITurn, ClickDeck, AITurn, AITurn, AITurn,
      ClickDeck, AITurn, AITurn, AITurn, ClickDeck, AITurn, AITurn, AITurn,
      ClickDeck, AITurn, AITurn, AITurn, ClickDeck, AITurn, AITurn, AITurn,
      ClickDeck, AITurn, AITurn, ClickDeck, AITurn, AITurn, AITurn, ClickDeck,
      AITurn, AITurn, AITurn, ClickDeck, AITurn, AITurn, AITurn, ClickDeck,
      AITurn, AITurn, AITurn, ClickDeck, AITurn, AITurn, AITurn]"

definition stateLongLog :: GameState where
  "stateLongLog = run longGame (deal longSeed)"

text \<open>
  The deal in which every random index is 0, with a click on the deck after two ticks and
  twelve ticks during the wait of \<open>performDraw\<close>.
\<close>

definition stateDealClicked :: GameState where
  "stateDealClicked = deckClickDuringDeal [] [] 2 12"

text \<open>A card of hearts for each player, to fill the hands of the two tables below.\<close>

fun spareCard :: "PlayerID \<Rightarrow> CardModel" where
  "spareCard south = cardOf ''card-2'' hearts R4"
| "spareCard west = cardOf ''card-3'' hearts R5"
| "spareCard north = cardOf ''card-4'' hearts R6"
| "spareCard east = cardOf ''card-5'' hearts R7"

text \<open>
  A table on which the player \<open>pid\<close> holds the Jack of spades as the only card, the other
  players hold one card each, the 9 of diamonds lies on the discard pile and no attack is
  pending.
\<close>

definition jackTable :: "PlayerID \<Rightarrow> GameState" where
  "jackTable pid =
     \<lparr>deck = [cardOf ''card-1'' hearts R3],
      discardPile = [cardOf ''card-20'' diamonds R9],
      hands = (\<lambda>p. if p = pid then [cardOf ''card-48'' spades RJ] else [spareCard p]),
      currentTurn = pid, activeSuit = diamonds, winner = None, isSuitSelectionOpen = False,
      gameLog = [], isDealing = False, attackStack = 0\<rparr>"

text \<open>
  A table with an empty deck: the discard pile holds the given cards, every player holds
  one card, the human player is to move.
\<close>

definition emptyDeckTable :: "CardModel list \<Rightarrow> GameState" where
  "emptyDeckTable dp =
     \<lparr>deck = [], discardPile = dp, hands = (\<lambda>p. [spareCard p]),
      currentTurn = south, activeSuit = hearts, winner = None, isSuitSelectionOpen = False,
      gameLog = [], isDealing = False, attackStack = 0\<rparr>"

section \<open>Lemmas\<close>

subsection \<open>The deck\<close>

lemma createDeck_cards [code]:
  "createDeck =
     [cardOf ''card-0'' hearts R2, cardOf ''card-1'' hearts R3,
      cardOf ''card-2'' hearts R4, cardOf ''card-3'' hearts R5,
      cardOf ''card-4'' hearts R6, cardOf ''card-5'' hearts R7,
      cardOf ''card-6'' hearts R8, cardOf ''card-7'' hearts R9,
      cardOf ''card-8'' hearts R10, cardOf ''card-9'' hearts RJ,
      cardOf ''card-10'' hearts RQ, cardOf ''card-11'' hearts RK,
      cardOf ''card-12'' hearts RA, cardOf ''card-13'' diamonds R2,
      cardOf ''card-14'' diamonds R3, cardOf ''card-15'' diamonds R4,
      cardOf ''card-16'' diamonds R5, cardOf ''card-17'' diamonds R6,
      cardOf ''card-18'' diamonds R7, cardOf ''card-19'' diamonds R8,
      cardOf ''card-20'' diamonds R9, cardOf ''card-21'' diamonds R10,
      cardOf ''card-22'' diamonds RJ, cardOf ''card-23'' diamonds RQ,
      cardOf ''card-24'' diamonds RK, cardOf ''card-25'' diamonds RA,
      cardOf ''card-26'' clubs R2, cardOf ''card-27'' clubs R3,
      cardOf ''card-28'' clubs R4, cardOf ''card-29'' clubs R5,
      cardOf ''card-30'' clubs R6, cardOf ''card-31'' clubs R7,
      cardOf ''card-32'' clubs R8, cardOf ''card-33'' clubs R9,
      cardOf ''card-34'' clubs R10, cardOf ''card-35'' clubs RJ,
      cardOf ''card-36'' clubs RQ, cardOf ''card-37'' clubs RK,
      cardOf ''card-38'' clubs RA, cardOf ''card-39'' spades R2,
      cardOf ''card-40'' spades R3, cardOf ''card-41'' spades R4,
      cardOf ''card-42'' spades R5, cardOf ''card-43'' spades R6,
      cardOf ''card-44'' spades R7, cardOf ''card-45'' spades R8,
      cardOf ''card-46'' spades R9, cardOf ''card-47'' spades R10,
      cardOf ''card-48'' spades RJ, cardOf ''card-49'' spades RQ,
      cardOf ''card-50'' spades RK, cardOf ''card-51'' spades RA]"
  by code_simp

lemma randomIndex_le: "randomIndex rs i \<le> i"
  by (simp add: randomIndex_def split: list.splits)

lemma mset_shuffleLoop: "k < length xs \<Longrightarrow> mset (shuffleLoop k rs xs) = mset xs"
proof (induction k arbitrary: rs xs)
  case 0
  then show ?case by simp
next
  case (Suc k)
  let ?j = "randomIndex rs (Suc k)"
  let ?ys = "xs[Suc k := xs ! ?j, ?j := xs ! Suc k]"
  have j: "?j < length xs"
    using randomIndex_le [of rs "Suc k"] Suc.prems by simp
  have "mset ?ys = mset xs"
    using mset_swap [OF j Suc.prems] .
  moreover have "mset (shuffleLoop k (tl rs) ?ys) = mset ?ys"
    using Suc.prems by (intro Suc.IH) simp
  ultimately show ?case by (simp add: Let_def)
qed

lemma mset_shuffleDeck: "mset (shuffleDeck rs xs) = mset xs"
proof (cases xs)
  case Nil
  then show ?thesis by (simp add: shuffleDeck_def)
next
  case (Cons x xs')
  then show ?thesis by (simp add: shuffleDeck_def mset_shuffleLoop)
qed

lemma length_shuffleDeck: "length (shuffleDeck rs xs) = length xs"
  using mset_shuffleDeck [of rs xs] by (metis size_mset)

lemma set_shuffleDeck: "set (shuffleDeck rs xs) = set xs"
  using mset_shuffleDeck [of rs xs] by (metis set_mset_mset)

lemma length_createDeck: "length createDeck = 52"
  by code_simp

lemma distinct_ids_createDeck: "distinct (map id_card createDeck)"
  by code_simp

subsection \<open>Draw engine\<close>

lemma mset_butlast_last:
  assumes "xs \<noteq> []"
  shows "add_mset (last xs) (mset (butlast xs)) = mset xs"
proof -
  have "mset xs = mset (butlast xs @ [last xs])"
    using assms by simp
  then show ?thesis by simp
qed

lemma mset_take_last:
  "xs \<noteq> [] \<Longrightarrow> add_mset (last xs) (mset (take (length xs - 1) xs)) = mset xs"
  using mset_butlast_last [of xs] by (simp add: butlast_conv_take)

lemma popCard_cards:
  "mset (newDeck (popCard d dp r lg rs)) + optCards (card_drawn (popCard d dp r lg rs)) = mset d"
  "newDiscard (popCard d dp r lg rs) = dp"
  "reshuffled (popCard d dp r lg rs) = r"
  by (simp_all add: popCard_def optCards_def mset_butlast_last)

lemma draw_cards:
  "mset (newDeck (drawCardForPlayerLogic rs d dp lg))
     + optCards (card_drawn (drawCardForPlayerLogic rs d dp lg))
     + mset (newDiscard (drawCardForPlayerLogic rs d dp lg)) = mset d + mset dp"
proof (cases "d = []")
  case False
  then show ?thesis by (simp add: drawCardForPlayerLogic_def popCard_cards)
next
  case True
  show ?thesis
  proof (cases "length dp \<le> 1")
    case True
    with \<open>d = []\<close> show ?thesis
      by (simp add: drawCardForPlayerLogic_def reshuffleDiscard_def optCards_def)
  next
    case False
    then have ne: "dp \<noteq> []" by auto
    from False \<open>d = []\<close> show ?thesis
      using mset_take_last [OF ne]
      by (simp add: drawCardForPlayerLogic_def reshuffleDiscard_def Let_def popCard_cards
          mset_shuffleDeck)
  qed
qed

lemma draw_not_reshuffled:
  "\<not> reshuffled (drawCardForPlayerLogic rs d dp lg)
     \<Longrightarrow> newDiscard (drawCardForPlayerLogic rs d dp lg) = dp"
  by (auto simp: drawCardForPlayerLogic_def reshuffleDiscard_def popCard_cards Let_def
      split: if_splits)

lemma drawLoop_cards:
  "mset (currentD (drawLoop n l)) + mset (drawnCards (drawLoop n l)) + mset (currentDP (drawLoop n l))
     = mset (currentD l) + mset (drawnCards l) + mset (currentDP l)"
proof (induction n arbitrary: l)
  case 0
  then show ?case by simp
next
  case (Suc n)
  let ?res = "drawCardForPlayerLogic (rand_loop l) (currentD l) (currentDP l) (log_loop l)"
  have dp: "(if reshuffled ?res then newDiscard ?res else currentDP l) = newDiscard ?res"
    using draw_not_reshuffled [of "rand_loop l" "currentD l" "currentDP l" "log_loop l"] by simp
  have one: "mset (newDeck ?res) + optCards (card_drawn ?res) + mset (newDiscard ?res)
               = mset (currentD l) + mset (currentDP l)"
    by (rule draw_cards)
  show ?case
  proof (cases "card_drawn ?res")
    case None
    with one dp show ?thesis
      by (cases "reshuffled ?res") (simp_all add: Let_def optCards_def)
  next
    case (Some c)
    with one dp show ?thesis
      by (cases "reshuffled ?res") (simp_all add: Let_def optCards_def Suc.IH)
  qed
qed

lemma drawLoop_didReshuffle_mono:
  "didReshuffle l \<Longrightarrow> didReshuffle (drawLoop n l)"
  by (induction n arbitrary: l) (auto simp: Let_def split: option.splits)

lemma drawLoop_not_reshuffled:
  "\<not> didReshuffle (drawLoop n l) \<Longrightarrow> currentDP (drawLoop n l) = currentDP l"
proof (induction n arbitrary: l)
  case 0
  then show ?case by simp
next
  case (Suc n)
  let ?res = "drawCardForPlayerLogic (rand_loop l) (currentD l) (currentDP l) (log_loop l)"
  show ?case
  proof (cases "reshuffled ?res")
    case True
    then have "didReshuffle (drawLoop (Suc n) l)"
      by (auto simp: Let_def drawLoop_didReshuffle_mono split: option.splits)
    with Suc.prems show ?thesis by simp
  next
    case False
    show ?thesis
    proof (cases "card_drawn ?res")
      case None
      with False show ?thesis by (simp add: Let_def)
    next
      case (Some c)
      let ?l' = "l\<lparr>currentD := newDeck ?res, log_loop := log_after ?res,
                    rand_loop := rand_after ?res, drawnCards := drawnCards l @ [c]\<rparr>"
      have eq: "drawLoop (Suc n) l = drawLoop n ?l'"
        using False Some by (simp add: Let_def)
      with Suc.prems have "\<not> didReshuffle (drawLoop n ?l')" by simp
      then have "currentDP (drawLoop n ?l') = currentDP ?l'" by (rule Suc.IH)
      with eq show ?thesis by simp
    qed
  qed
qed

subsection \<open>Fields after each operation\<close>

lemma advanceTurn_fields [simp]:
  "deck (advanceTurn pc p s) = deck s"
  "discardPile (advanceTurn pc p s) = discardPile s"
  "hands (advanceTurn pc p s) = hands s"
  "winner (advanceTurn pc p s) = winner s"
  "activeSuit (advanceTurn pc p s) = activeSuit s"
  "isSuitSelectionOpen (advanceTurn pc p s) = isSuitSelectionOpen s"
  "isDealing (advanceTurn pc p s) = isDealing s"
  by (simp_all add: advanceTurn_def split: option.splits)

lemma advanceTurn_attackStack:
  "attackStack (advanceTurn pc p s) =
     (case pc of None \<Rightarrow> attackStack s
      | Some c \<Rightarrow> if rank c = R2 then attackStack s + 2 else attackStack s)"
  by (simp add: advanceTurn_def split: option.splits)

lemma advanceTurn_currentTurn:
  "currentTurn (advanceTurn pc p s) =
     getNextPlayer p (case pc of None \<Rightarrow> False | Some c \<Rightarrow> rank c = RA)"
  by (simp add: advanceTurn_def split: option.splits)

lemma getNextPlayer_neq: "getNextPlayer p b \<noteq> p"
  by (cases p; cases b) (simp_all add: getNextPlayer_def order_def)

lemma executePlay_fields [simp]:
  "deck (executePlay c pid s) = deck s"
  "discardPile (executePlay c pid s) = discardPile s @ [c]"
  "hands (executePlay c pid s) = (hands s)(pid := filter (\<lambda>x. id_card x \<noteq> id_card c) (hands s pid))"
  "isDealing (executePlay c pid s) = isDealing s"
  by (simp_all add: executePlay_def Let_def)

lemma executePlay_winner:
  "winner (executePlay c pid s) =
     (if filter (\<lambda>x. id_card x \<noteq> id_card c) (hands s pid) = [] then Some pid else winner s)"
  by (simp add: executePlay_def Let_def)

lemma executePlay_attackStack:
  "attackStack (executePlay c pid s) =
     (if filter (\<lambda>x. id_card x \<noteq> id_card c) (hands s pid) \<noteq> [] \<and> rank c = R2
      then attackStack s + 2 else attackStack s)"
  by (simp add: executePlay_def Let_def advanceTurn_attackStack)

lemma executePlay_isSuitSelectionOpen:
  "isSuitSelectionOpen (executePlay c pid s) =
     (if filter (\<lambda>x. id_card x \<noteq> id_card c) (hands s pid) \<noteq> [] \<and> rank c = RJ \<and> pid = south
      then True else isSuitSelectionOpen s)"
  by (auto simp: executePlay_def Let_def)

lemma executePlay_currentTurn:
  "currentTurn (executePlay c pid s) =
     (if filter (\<lambda>x. id_card x \<noteq> id_card c) (hands s pid) = [] \<or> (rank c = RJ \<and> pid = south)
      then currentTurn s else getNextPlayer pid (rank c = RA))"
  by (auto simp: executePlay_def Let_def advanceTurn_currentTurn)

lemma performDraw_fields [simp]:
  "winner (performDraw rs pid n s) = winner s"
  "isSuitSelectionOpen (performDraw rs pid n s) = isSuitSelectionOpen s"
  "isDealing (performDraw rs pid n s) = isDealing s"
  "activeSuit (performDraw rs pid n s) = activeSuit s"
  "currentTurn (performDraw rs pid n s) = getNextPlayer pid False"
  "attackStack (performDraw rs pid n s) = (if attackStack s > 0 then 0 else attackStack s)"
  by (simp_all add: performDraw_def Let_def advanceTurn_currentTurn advanceTurn_attackStack)

lemma performDraw_piles:
  "deck (performDraw rs pid n s) = currentD (drawn rs n s)"
  "discardPile (performDraw rs pid n s) = currentDP (drawn rs n s)"
  "hands (performDraw rs pid n s) = (hands s)(pid := hands s pid @ drawnCards (drawn rs n s))"
proof -
  show "deck (performDraw rs pid n s) = currentD (drawn rs n s)"
    by (simp add: performDraw_def Let_def drawn_def)
  show "hands (performDraw rs pid n s) = (hands s)(pid := hands s pid @ drawnCards (drawn rs n s))"
    by (simp add: performDraw_def Let_def drawn_def)
  have "\<not> didReshuffle (drawn rs n s) \<Longrightarrow> currentDP (drawn rs n s) = discardPile s"
    unfolding drawn_def using drawLoop_not_reshuffled by fastforce
  then show "discardPile (performDraw rs pid n s) = currentDP (drawn rs n s)"
    by (auto simp: performDraw_def Let_def drawn_def)
qed

lemma drawn_cards:
  "mset (currentD (drawn rs n s)) + mset (drawnCards (drawn rs n s)) + mset (currentDP (drawn rs n s))
     = mset (deck s) + mset (discardPile s)"
  unfolding drawn_def using drawLoop_cards
    [of "nat n" "\<lparr>currentD = deck s, currentDP = discardPile s, drawnCards = [],
        didReshuffle = False, log_loop = gameLog s, rand_loop = rs\<rparr>"]
  by simp

lemma handleSuitSelect_fields [simp]:
  "deck (handleSuitSelect su s) = deck s"
  "discardPile (handleSuitSelect su s) = discardPile s"
  "hands (handleSuitSelect su s) = hands s"
  "winner (handleSuitSelect su s) = winner s"
  "isSuitSelectionOpen (handleSuitSelect su s) = False"
  "isDealing (handleSuitSelect su s) = isDealing s"
  "attackStack (handleSuitSelect su s) = attackStack s"
  "currentTurn (handleSuitSelect su s) = west"
  "activeSuit (handleSuitSelect su s) = su"
  by (simp_all add: handleSuitSelect_def advanceTurn_attackStack advanceTurn_currentTurn
      getNextPlayer_def order_def)

lemma winnerEffect_fields [simp]:
  "deck (winnerEffect s) = deck s"
  "discardPile (winnerEffect s) = discardPile s"
  "hands (winnerEffect s) = hands s"
  "isSuitSelectionOpen (winnerEffect s) = isSuitSelectionOpen s"
  "isDealing (winnerEffect s) = isDealing s"
  "attackStack (winnerEffect s) = attackStack s"
  "currentTurn (winnerEffect s) = currentTurn s"
  "activeSuit (winnerEffect s) = activeSuit s"
  "gameLog (winnerEffect s) = gameLog s"
  by (simp_all add: winnerEffect_def order_def)

lemma winnerEffect_id:
  assumes "\<And>p. hands s p = [] \<Longrightarrow> winner s = Some p"
  shows "winnerEffect s = s"
proof -
  have "\<And>p. hands s p = [] \<Longrightarrow> s\<lparr>winner := Some p\<rparr> = s"
    using assms by simp
  then show ?thesis
    by (simp add: winnerEffect_def order_def)
qed

subsection \<open>The invariant\<close>

lemma allCards_frame:
  assumes "deck s' = d" "discardPile s' = dp" "hands s' = (hands s)(pid := h)"
  shows "mset (allCards s') + mset (hands s pid) + mset (deck s) + mset (discardPile s)
           = mset (allCards s) + mset h + mset d + mset dp"
  using assms by (cases pid) (simp_all add: allCards_def)

lemma hand_subset_allCards: "mset (hands s p) \<subseteq># mset (allCards s)"
  by (cases p) (simp_all add: allCards_def)

lemma wellFormed_distinct_all:
  assumes "wellFormed s"
  shows "distinct (map id_card (allCards s))"
proof -
  have "mset (map id_card (allCards s)) = mset (map id_card createDeck)"
    using assms by (simp add: wellFormed_def)
  then show ?thesis
    using distinct_ids_createDeck by (metis mset_eq_imp_distinct_iff)
qed

lemma wellFormed_distinct_hand:
  assumes "wellFormed s"
  shows "distinct (map id_card (hands s p))"
proof -
  have "distinct (map id_card (allCards s))"
    using assms by (rule wellFormed_distinct_all)
  then show ?thesis
    by (cases p) (simp_all add: allCards_def)
qed

lemma filter_id_removes_one:
  "distinct (map f xs) \<Longrightarrow> x \<in> set xs
     \<Longrightarrow> add_mset x (mset (filter (\<lambda>y. f y \<noteq> f x) xs)) = mset xs"
proof (induction xs)
  case Nil
  then show ?case by simp
next
  case (Cons a xs)
  show ?case
  proof (cases "a = x")
    case True
    have "\<And>y. y \<in> set xs \<Longrightarrow> f y \<noteq> f x"
      using Cons.prems(1) True by (metis distinct.simps(2) image_eqI list.simps(9) set_map)
    then have "filter (\<lambda>y. f y \<noteq> f x) xs = xs"
      by (simp add: filter_id_conv)
    with True show ?thesis by simp
  next
    case False
    with Cons.prems have "x \<in> set xs" "f a \<noteq> f x" by auto
    with Cons show ?thesis by simp
  qed
qed

lemma executePlay_cards:
  assumes "wellFormed s" "c \<in> set (hands s pid)"
  shows "mset (allCards (executePlay c pid s)) = mset (allCards s)"
proof -
  let ?h = "filter (\<lambda>x. id_card x \<noteq> id_card c) (hands s pid)"
  have rem: "add_mset c (mset ?h) = mset (hands s pid)"
    using wellFormed_distinct_hand [OF assms(1)] assms(2) by (rule filter_id_removes_one)
  have "mset (allCards (executePlay c pid s)) + mset (hands s pid) + mset (deck s) + mset (discardPile s)
          = mset (allCards s) + mset ?h + mset (deck s) + mset (discardPile s @ [c])"
    by (rule allCards_frame) simp_all
  then have "mset (allCards (executePlay c pid s)) + mset (hands s pid)
          = mset (allCards s) + add_mset c (mset ?h)"
    by simp
  with rem show ?thesis by simp
qed

lemma performDraw_cards:
  "mset (allCards (performDraw rs pid n s)) = mset (allCards s)"
proof -
  let ?l = "drawn rs n s"
  have "mset (allCards (performDraw rs pid n s)) + mset (hands s pid) + mset (deck s) + mset (discardPile s)
          = mset (allCards s) + mset (hands s pid @ drawnCards ?l) + mset (currentD ?l) + mset (currentDP ?l)"
    by (rule allCards_frame) (simp_all add: performDraw_piles)
  also have "\<dots> = mset (allCards s) + mset (hands s pid)
                   + (mset (currentD ?l) + mset (drawnCards ?l) + mset (currentDP ?l))"
    by simp
  also have "\<dots> = mset (allCards s) + mset (hands s pid) + (mset (deck s) + mset (discardPile s))"
    by (simp only: drawn_cards)
  finally show ?thesis by simp
qed

lemma allCards_eqI:
  "deck s' = deck s \<Longrightarrow> discardPile s' = discardPile s \<Longrightarrow> hands s' = hands s
     \<Longrightarrow> allCards s' = allCards s"
  by (simp add: allCards_def)

lemma draw_discard_nonempty:
  "dp \<noteq> [] \<Longrightarrow> newDiscard (drawCardForPlayerLogic rs d dp lg) \<noteq> []"
  by (auto simp: drawCardForPlayerLogic_def reshuffleDiscard_def popCard_cards Let_def)

lemma drawLoop_discard_nonempty:
  "currentDP l \<noteq> [] \<Longrightarrow> currentDP (drawLoop n l) \<noteq> []"
proof (induction n arbitrary: l)
  case 0
  then show ?case by simp
next
  case (Suc n)
  let ?res = "drawCardForPlayerLogic (rand_loop l) (currentD l) (currentDP l) (log_loop l)"
  have "newDiscard ?res \<noteq> []"
    using Suc.prems by (rule draw_discard_nonempty)
  with Suc show ?case
    by (cases "card_drawn ?res"; cases "reshuffled ?res") (simp_all add: Let_def)
qed

lemma aiChoice_in:
  assumes "aiChoice vm t a k = Some c"
  shows "c \<in> set vm"
proof -
  have first: "\<And>xs x. firstOf xs = Some x \<Longrightarrow> x \<in> set xs"
    by (auto simp: firstOf_def split: list.splits)
  have found: "\<And>P xs x. List.find P xs = Some x \<Longrightarrow> x \<in> set xs"
    by (auto simp: find_Some_iff)
  have sub: "\<And>x. x \<in> set (filter (\<lambda>c. rank c \<noteq> RJ) vm) \<Longrightarrow> x \<in> set vm"
    by simp
  from assms show ?thesis
    unfolding aiChoice_def Let_def
    by (auto split: if_splits option.splits dest!: first found)
qed

lemma executePlay_wellFormed:
  assumes wf: "wellFormed s" and nw: "winner s = None" and no: "\<not> isSuitSelectionOpen s"
    and turn: "currentTurn s = pid" and mem: "c \<in> set (hands s pid)"
  shows "wellFormed (executePlay c pid s)"
proof -
  let ?s' = "executePlay c pid s"
  have nonempty: "\<And>p. hands s p \<noteq> []"
    using wf nw by (auto simp: wellFormed_def)
  have c1: "mset (allCards ?s') = mset createDeck"
    using executePlay_cards [OF wf mem] wf by (simp add: wellFormed_def)
  have c2: "\<forall>p. hands ?s' p = [] \<longrightarrow> winner ?s' = Some p"
    using nonempty by (simp add: executePlay_winner)
  have c3: "isSuitSelectionOpen ?s' \<longrightarrow> currentTurn ?s' = south \<and> winner ?s' = None"
    using no nw turn
    by (auto simp: executePlay_isSuitSelectionOpen executePlay_currentTurn executePlay_winner)
  have c4: "0 \<le> attackStack ?s' \<and> even (attackStack ?s')"
    using wf by (simp add: wellFormed_def executePlay_attackStack)
  have c5: "\<not> isDealing ?s' \<and> discardPile ?s' \<noteq> []"
    using wf by (simp add: wellFormed_def)
  from c1 c2 c3 c4 c5 show ?thesis
    unfolding wellFormed_def by blast
qed

lemma performDraw_wellFormed:
  assumes wf: "wellFormed s" and no: "\<not> isSuitSelectionOpen s"
  shows "wellFormed (performDraw rs pid n s)"
proof -
  let ?s' = "performDraw rs pid n s"
  have c1: "mset (allCards ?s') = mset createDeck"
    using wf by (simp add: performDraw_cards wellFormed_def)
  have c2: "\<forall>p. hands ?s' p = [] \<longrightarrow> winner ?s' = Some p"
    using wf by (simp add: performDraw_piles wellFormed_def)
  have c3: "isSuitSelectionOpen ?s' \<longrightarrow> currentTurn ?s' = south \<and> winner ?s' = None"
    using no by simp
  have c4: "0 \<le> attackStack ?s' \<and> even (attackStack ?s')"
    using wf by (simp add: wellFormed_def)
  have "discardPile s \<noteq> []"
    using wf by (simp add: wellFormed_def)
  then have "currentDP (drawn rs n s) \<noteq> []"
    unfolding drawn_def by (intro drawLoop_discard_nonempty) simp
  then have c5: "\<not> isDealing ?s' \<and> discardPile ?s' \<noteq> []"
    using wf by (simp add: wellFormed_def performDraw_piles)
  from c1 c2 c3 c4 c5 show ?thesis
    unfolding wellFormed_def by blast
qed

lemma handleSuitSelect_wellFormed:
  assumes wf: "wellFormed s"
  shows "wellFormed (handleSuitSelect su s)"
proof -
  have "allCards (handleSuitSelect su s) = allCards s"
    by (rule allCards_eqI) simp_all
  with wf show ?thesis
    by (simp add: wellFormed_def)
qed

lemma handleCardClick_wellFormed:
  assumes "wellFormed s" "c \<in> set (hands s south)"
  shows "wellFormed (handleCardClick c s)"
  using assms by (auto simp: handleCardClick_def Let_def intro: executePlay_wellFormed)

lemma handleDeckClick_wellFormed:
  assumes "wellFormed s"
  shows "wellFormed (handleDeckClick rs s)"
  using assms by (auto simp: handleDeckClick_def Let_def intro: performDraw_wellFormed)

lemma performAITurn_wellFormed:
  assumes wf: "wellFormed s"
  shows "wellFormed (performAITurn rs s)"
proof (cases "currentTurn s = south \<or> winner s \<noteq> None \<or> isDealing s")
  case True
  with wf show ?thesis by (simp add: performAITurn_def)
next
  case False
  then have no: "\<not> isSuitSelectionOpen s"
    using wf by (auto simp: wellFormed_def)
  show ?thesis
  proof (cases "topOf (discardPile s)")
    case None
    with wf False show ?thesis by (simp add: performAITurn_def)
  next
    case (Some t)
    let ?vm = "filter (\<lambda>c. isValidMove c (Some t) (activeSuit s) (attackStack s))
                 (hands s (currentTurn s))"
    show ?thesis
    proof (cases "?vm = []")
      case True
      with False Some show ?thesis
        using performDraw_wellFormed [OF wf no] by (simp add: performAITurn_def Let_def)
    next
      case nonempty: False
      show ?thesis
      proof (cases "aiChoice ?vm t (activeSuit s) (attackStack s)")
        case None
        with False Some nonempty wf show ?thesis by (simp add: performAITurn_def Let_def)
      next
        case (Some c)
        then have "c \<in> set (hands s (currentTurn s))"
          using aiChoice_in [OF Some] by simp
        then have "wellFormed (executePlay c (currentTurn s) s)"
          using wf False no by (intro executePlay_wellFormed) simp_all
        with False \<open>topOf (discardPile s) = Some t\<close> nonempty Some show ?thesis
          by (simp add: performAITurn_def Let_def)
      qed
    qed
  qed
qed

lemma winnerEffect_wellFormed:
  assumes "wellFormed s"
  shows "winnerEffect s = s"
  using assms by (intro winnerEffect_id) (simp add: wellFormed_def)

lemma step_wellFormed:
  assumes wf: "wellFormed s"
  shows "wellFormed (step rs e s)"
proof -
  let ?t = "case e of
          ClickCard c \<Rightarrow> if c \<in> set (hands s south) then handleCardClick c s else s
        | ClickDeck \<Rightarrow> handleDeckClick rs s
        | SelectSuit su \<Rightarrow> if isSuitSelectionOpen s then handleSuitSelect su s else s
        | AITurn \<Rightarrow> performAITurn rs s"
  have "wellFormed ?t"
    using wf
    by (cases e)
      (simp_all add: handleCardClick_wellFormed handleDeckClick_wellFormed
        handleSuitSelect_wellFormed performAITurn_wellFormed)
  then show ?thesis
    by (simp add: step_def winnerEffect_wellFormed)
qed

subsection \<open>The deal\<close>

lemma dealTick_fields [simp]:
  "discardPile (dealTick s i) = discardPile s"
  "winner (dealTick s i) = winner s"
  "isSuitSelectionOpen (dealTick s i) = isSuitSelectionOpen s"
  "attackStack (dealTick s i) = attackStack s"
  "gameLog (dealTick s i) = gameLog s"
  "length (deck (dealTick s i)) = length (deck s) - 1"
  "currentTurn (dealTick s i) = currentTurn s"
  "isDealing (dealTick s i) = isDealing s"
  by (simp_all add: dealTick_def Let_def)

lemma dealTick_cards: "mset (allCards (dealTick s i)) = mset (allCards s)"
proof (cases "deck s = []")
  case True
  then show ?thesis by (simp add: dealTick_def)
next
  case False
  let ?p = "order ! (i mod 4)"
  let ?s' = "dealTick s i"
  have "mset (allCards ?s') + mset (hands s ?p) + mset (deck s) + mset (discardPile s)
          = mset (allCards s) + mset (hands s ?p @ [last (deck s)]) + mset (butlast (deck s))
            + mset (discardPile s)"
    using False by (intro allCards_frame) (simp_all add: dealTick_def Let_def)
  then have "mset (allCards ?s') + mset (deck s)
          = mset (allCards s) + add_mset (last (deck s)) (mset (butlast (deck s)))"
    by simp
  then have "mset (allCards ?s') + mset (deck s) = mset (allCards s) + mset (deck s)"
    by (simp only: mset_butlast_last [OF False])
  then show ?thesis by simp
qed

lemma dealTick_hand:
  "deck s \<noteq> [] \<Longrightarrow>
     length (hands (dealTick s i) p) = length (hands s p) + (if order ! (i mod 4) = p then 1 else 0)"
  by (simp add: dealTick_def Let_def)

lemma dealTicks_fields [simp]:
  "discardPile (foldl dealTick s ks) = discardPile s"
  "winner (foldl dealTick s ks) = winner s"
  "isSuitSelectionOpen (foldl dealTick s ks) = isSuitSelectionOpen s"
  "attackStack (foldl dealTick s ks) = attackStack s"
  "gameLog (foldl dealTick s ks) = gameLog s"
  "length (deck (foldl dealTick s ks)) = length (deck s) - length ks"
  "mset (allCards (foldl dealTick s ks)) = mset (allCards s)"
  "currentTurn (foldl dealTick s ks) = currentTurn s"
  "isDealing (foldl dealTick s ks) = isDealing s"
  by (induction ks arbitrary: s; simp add: dealTick_cards)+

lemma dealTicks_hand:
  "length ks \<le> length (deck s) \<Longrightarrow>
     length (hands (foldl dealTick s ks) p)
       = length (hands s p) + length (filter (\<lambda>i. order ! (i mod 4) = p) ks)"
proof (induction ks arbitrary: s)
  case Nil
  then show ?case by simp
next
  case (Cons k ks)
  then have ne: "deck s \<noteq> []" by auto
  have "length ks \<le> length (deck (dealTick s k))"
    using Cons.prems by simp
  then have "length (hands (foldl dealTick (dealTick s k) ks) p)
               = length (hands (dealTick s k) p) + length (filter (\<lambda>i. order ! (i mod 4) = p) ks)"
    by (rule Cons.IH)
  then show ?case
    using dealTick_hand [OF ne, of k p] by simp
qed

lemma round_robin_count:
  "length (filter (\<lambda>i. order ! (i mod 4) = p) [0..<HAND_SIZE * 4]) = 8"
proof (cases p)
  case south
  show ?thesis unfolding south by code_simp
next
  case west
  show ?thesis unfolding west by code_simp
next
  case north
  show ?thesis unfolding north by code_simp
next
  case east
  show ?thesis unfolding east by code_simp
qed

lemma startDeal_fields [simp]:
  "deck (startDeal rs s) = shuffleDeck rs createDeck"
  "discardPile (startDeal rs s) = []"
  "hands (startDeal rs s) = (\<lambda>_. [])"
  "winner (startDeal rs s) = None"
  "gameLog (startDeal rs s) = []"
  "attackStack (startDeal rs s) = 0"
  "isSuitSelectionOpen (startDeal rs s) = isSuitSelectionOpen s"
  by (simp_all add: startDeal_def)

lemma dealt_fields:
  "discardPile (dealt rs) = []"
  "winner (dealt rs) = None"
  "\<not> isSuitSelectionOpen (dealt rs)"
  "gameLog (dealt rs) = []"
  "length (deck (dealt rs)) = 20"
  "mset (allCards (dealt rs)) = mset createDeck"
  "length (hands (dealt rs) p) = 8"
proof -
  show "discardPile (dealt rs) = []" "winner (dealt rs) = None" "gameLog (dealt rs) = []"
    by (simp_all add: dealt_def)
  show "\<not> isSuitSelectionOpen (dealt rs)"
    by (simp add: dealt_def initialState_def)
  show "length (deck (dealt rs)) = 20"
    by (simp add: dealt_def length_shuffleDeck length_createDeck HAND_SIZE_def)
  have "mset (allCards (dealt rs)) = mset (allCards (startDeal rs initialState))"
    by (simp add: dealt_def)
  also have "\<dots> = mset createDeck"
    by (simp add: allCards_def mset_shuffleDeck)
  finally show "mset (allCards (dealt rs)) = mset createDeck" .
  have "length [0..<HAND_SIZE * 4] \<le> length (deck (startDeal rs initialState))"
    by (simp add: length_shuffleDeck length_createDeck HAND_SIZE_def)
  then show "length (hands (dealt rs) p) = 8"
    unfolding dealt_def by (simp add: dealTicks_hand round_robin_count)
qed

lemma finishDealing_fields:
  assumes "deck s \<noteq> []"
  shows "deck (finishDealing s) = butlast (deck s)"
    "discardPile (finishDealing s) = [last (deck s)]"
    "hands (finishDealing s) = hands s"
    "winner (finishDealing s) = winner s"
    "isSuitSelectionOpen (finishDealing s) = isSuitSelectionOpen s"
    "\<not> isDealing (finishDealing s)"
    "currentTurn (finishDealing s) = south"
    "activeSuit (finishDealing s) = suit (last (deck s))"
    "attackStack (finishDealing s) = (if rank (last (deck s)) = R2 then 2 else 0)"
  using assms by (simp_all add: finishDealing_def Let_def)

lemma deal_eq: "deal rs = finishDealing (dealt rs)"
proof -
  have "length (deck (dealt rs)) = 20" by (rule dealt_fields)
  then have ne: "deck (dealt rs) \<noteq> []" by auto
  have "\<And>p. hands (finishDealing (dealt rs)) p \<noteq> []"
  proof -
    fix p
    have "length (hands (dealt rs) p) = 8" by (rule dealt_fields)
    then show "hands (finishDealing (dealt rs)) p \<noteq> []"
      using finishDealing_fields(3) [OF ne] by auto
  qed
  then have "winnerEffect (finishDealing (dealt rs)) = finishDealing (dealt rs)"
    by (intro winnerEffect_id) simp
  then show ?thesis by (simp add: deal_def dealt_def)
qed

lemma deal_shape:
  "length (deck (deal rs)) = 19"
  "length (discardPile (deal rs)) = 1"
  "length (hands (deal rs) p) = 8"
  "winner (deal rs) = None"
  "\<not> isSuitSelectionOpen (deal rs)"
  "\<not> isDealing (deal rs)"
  "currentTurn (deal rs) = south"
  "attackStack (deal rs) = (if rank (last (discardPile (deal rs))) = R2 then 2 else 0)"
  "mset (allCards (deal rs)) = mset createDeck"
proof -
  have len: "length (deck (dealt rs)) = 20" by (rule dealt_fields)
  then have ne: "deck (dealt rs) \<noteq> []" by auto
  note f = finishDealing_fields [OF ne]
  show "length (deck (deal rs)) = 19" using len by (simp add: deal_eq f)
  show "length (discardPile (deal rs)) = 1" by (simp add: deal_eq f)
  show "length (hands (deal rs) p) = 8" by (simp add: deal_eq f dealt_fields)
  show "winner (deal rs) = None" by (simp add: deal_eq f dealt_fields)
  show "\<not> isSuitSelectionOpen (deal rs)" by (simp add: deal_eq f dealt_fields)
  show "\<not> isDealing (deal rs)" by (simp add: deal_eq f)
  show "currentTurn (deal rs) = south" by (simp add: deal_eq f)
  show "attackStack (deal rs) = (if rank (last (discardPile (deal rs))) = R2 then 2 else 0)"
    by (simp add: deal_eq f)
  have "mset (allCards (deal rs)) + mset (hands (dealt rs) south) + mset (deck (dealt rs))
            + mset (discardPile (dealt rs))
          = mset (allCards (dealt rs)) + mset (hands (dealt rs) south) + mset (butlast (deck (dealt rs)))
            + mset [last (deck (dealt rs))]"
    by (rule allCards_frame) (simp_all add: deal_eq f)
  then have "mset (allCards (deal rs)) + mset (deck (dealt rs))
          = mset createDeck + add_mset (last (deck (dealt rs))) (mset (butlast (deck (dealt rs))))"
    by (simp add: dealt_fields)
  then have "mset (allCards (deal rs)) + mset (deck (dealt rs)) = mset createDeck + mset (deck (dealt rs))"
    by (simp only: mset_butlast_last [OF ne])
  then show "mset (allCards (deal rs)) = mset createDeck" by simp
qed

lemma deal_wellFormed: "wellFormed (deal rs)"
proof -
  have "\<And>p. hands (deal rs) p \<noteq> []"
    using deal_shape(3) [of rs] by (metis length_0_conv zero_neq_numeral)
  moreover have "discardPile (deal rs) \<noteq> []"
    using deal_shape(2) [of rs] by auto
  ultimately show ?thesis
    unfolding wellFormed_def by (simp add: deal_shape)
qed

lemma undisturbed_wellFormed: "undisturbed s \<Longrightarrow> wellFormed s"
  by (induction rule: undisturbed.induct) (simp_all add: deal_wellFormed step_wellFormed)

lemma undisturbed_reachable: "undisturbed s \<Longrightarrow> reachable s"
  by (induction rule: undisturbed.induct) (simp_all add: reachable_deal reachable_step)

subsection \<open>The invariant of all reachable states\<close>

lemma wellFormed_gameInv: "wellFormed s \<Longrightarrow> gameInv s"
  by (simp add: wellFormed_def gameInv_def)

lemma executePlay_gameInv:
  assumes inv: "gameInv s" and nw: "winner s = None" and no: "\<not> isSuitSelectionOpen s"
    and turn: "currentTurn s = pid"
  shows "gameInv (executePlay c pid s)"
proof -
  let ?s' = "executePlay c pid s"
  have nonempty: "\<And>p. hands s p \<noteq> []"
    using inv nw by (auto simp: gameInv_def)
  have c2: "\<forall>p. hands ?s' p = [] \<longrightarrow> winner ?s' = Some p"
    using nonempty by (simp add: executePlay_winner)
  have c3: "isSuitSelectionOpen ?s' \<longrightarrow> currentTurn ?s' = south \<and> winner ?s' = None"
    using no nw turn
    by (auto simp: executePlay_isSuitSelectionOpen executePlay_currentTurn executePlay_winner)
  have c4: "0 \<le> attackStack ?s' \<and> even (attackStack ?s')"
    using inv by (simp add: gameInv_def executePlay_attackStack)
  have c5: "\<not> isDealing ?s' \<and> discardPile ?s' \<noteq> []"
    using inv by (simp add: gameInv_def)
  from c2 c3 c4 c5 show ?thesis
    unfolding gameInv_def by blast
qed

lemma performDraw_gameInv:
  assumes inv: "gameInv s" and no: "\<not> isSuitSelectionOpen s"
  shows "gameInv (performDraw rs pid n s)"
proof -
  let ?s' = "performDraw rs pid n s"
  have c2: "\<forall>p. hands ?s' p = [] \<longrightarrow> winner ?s' = Some p"
    using inv by (simp add: performDraw_piles gameInv_def)
  have c3: "isSuitSelectionOpen ?s' \<longrightarrow> currentTurn ?s' = south \<and> winner ?s' = None"
    using no by simp
  have c4: "0 \<le> attackStack ?s' \<and> even (attackStack ?s')"
    using inv by (simp add: gameInv_def)
  have "discardPile s \<noteq> []"
    using inv by (simp add: gameInv_def)
  then have "currentDP (drawn rs n s) \<noteq> []"
    unfolding drawn_def by (intro drawLoop_discard_nonempty) simp
  then have c5: "\<not> isDealing ?s' \<and> discardPile ?s' \<noteq> []"
    using inv by (simp add: gameInv_def performDraw_piles)
  from c2 c3 c4 c5 show ?thesis
    unfolding gameInv_def by blast
qed

lemma handleSuitSelect_gameInv:
  assumes "gameInv s"
  shows "gameInv (handleSuitSelect su s)"
  using assms by (simp add: gameInv_def)

lemma handleCardClick_gameInv:
  assumes "gameInv s"
  shows "gameInv (handleCardClick c s)"
  using assms by (auto simp: handleCardClick_def Let_def intro: executePlay_gameInv)

lemma handleDeckClick_gameInv:
  assumes "gameInv s"
  shows "gameInv (handleDeckClick rs s)"
  using assms by (auto simp: handleDeckClick_def Let_def intro: performDraw_gameInv)

lemma performAITurn_gameInv:
  assumes inv: "gameInv s"
  shows "gameInv (performAITurn rs s)"
proof (cases "currentTurn s = south \<or> winner s \<noteq> None \<or> isDealing s")
  case True
  with inv show ?thesis by (simp add: performAITurn_def)
next
  case False
  then have no: "\<not> isSuitSelectionOpen s"
    using inv by (auto simp: gameInv_def)
  have play: "gameInv (executePlay c (currentTurn s) s)" for c
    using inv False no by (intro executePlay_gameInv) simp_all
  have draw: "gameInv (performDraw rs (currentTurn s) n s)" for n
    using inv no by (rule performDraw_gameInv)
  show ?thesis
    using inv play draw
    by (simp add: performAITurn_def Let_def split: option.splits)
qed

lemma winnerEffect_gameInv:
  assumes "gameInv s"
  shows "winnerEffect s = s"
  using assms by (intro winnerEffect_id) (simp add: gameInv_def)

lemma step_gameInv:
  assumes inv: "gameInv s"
  shows "gameInv (step rs e s)"
proof -
  let ?t = "case e of
          ClickCard c \<Rightarrow> if c \<in> set (hands s south) then handleCardClick c s else s
        | ClickDeck \<Rightarrow> handleDeckClick rs s
        | SelectSuit su \<Rightarrow> if isSuitSelectionOpen s then handleSuitSelect su s else s
        | AITurn \<Rightarrow> performAITurn rs s"
  have "gameInv ?t"
    using inv
    by (cases e)
      (simp_all add: handleCardClick_gameInv handleDeckClick_gameInv
        handleSuitSelect_gameInv performAITurn_gameInv)
  then show ?thesis
    by (simp add: step_def winnerEffect_gameInv)
qed

subsection \<open>The deal with a click on the deck\<close>

lemma performDraw_split:
  "performDraw rs pid n s =
     performDrawCommit pid (drawn rs n s) (attackStack s) (s\<lparr>gameLog := log_loop (drawn rs n s)\<rparr>)"
  by (simp add: performDraw_def performDrawCommit_def drawn_def Let_def)

lemma performDrawCommit_fields [simp]:
  "winner (performDrawCommit pid l atk s) = winner s"
  "isSuitSelectionOpen (performDrawCommit pid l atk s) = isSuitSelectionOpen s"
  "isDealing (performDrawCommit pid l atk s) = isDealing s"
  "currentTurn (performDrawCommit pid l atk s) = getNextPlayer pid False"
  "attackStack (performDrawCommit pid l atk s) = (if atk > 0 then 0 else attackStack s)"
  "deck (performDrawCommit pid l atk s) = currentD l"
  "discardPile (performDrawCommit pid l atk s) = (if didReshuffle l then currentDP l else discardPile s)"
  "hands (performDrawCommit pid l atk s) = (hands s)(pid := hands s pid @ drawnCards l)"
  "length (gameLog (performDrawCommit pid l atk s)) = length (addLog m (gameLog s))"
  by (simp_all add: performDrawCommit_def Let_def advanceTurn_currentTurn advanceTurn_attackStack
      advanceTurn_def addLog_def)

lemma drawn_one:
  assumes "deck s \<noteq> []"
  shows "drawn rs 1 s =
     \<lparr>currentD = butlast (deck s), currentDP = discardPile s, drawnCards = [last (deck s)],
      didReshuffle = False, log_loop = gameLog s, rand_loop = rs\<rparr>"
  using assms by (simp add: drawn_def drawCardForPlayerLogic_def popCard_def Let_def)

lemma dealCallback_ticks:
  "b \<le> HAND_SIZE * 4 \<Longrightarrow> foldl dealCallback s [a..<b] = foldl dealTick s [a..<b]"
  by (rule foldl_cong) (auto simp: dealCallback_def)

lemma dealCallback_finish:
  assumes "a \<le> HAND_SIZE * 4"
  shows "foldl dealCallback s [a..<HAND_SIZE * 4 + 1] = finishDealing (foldl dealTick s [a..<HAND_SIZE * 4])"
proof -
  have "[a..<HAND_SIZE * 4 + 1] = [a..<HAND_SIZE * 4] @ [HAND_SIZE * 4]"
    using assms by simp
  then have "foldl dealCallback s [a..<HAND_SIZE * 4 + 1]
      = dealCallback (foldl dealCallback s [a..<HAND_SIZE * 4]) (HAND_SIZE * 4)"
    by simp
  then show ?thesis
    by (simp add: dealCallback_ticks dealCallback_def)
qed

lemma deal_callbacks:
  "deal rs = winnerEffect (foldl dealCallback (startDeal rs initialState) [0..<HAND_SIZE * 4 + 1])"
  by (simp only: dealCallback_finish [OF le0] deal_def)

lemma upt_split: "i \<le> j \<Longrightarrow> j \<le> k \<Longrightarrow> [i..<k] = [i..<j] @ [j..<k]"
  using upt_add_eq_append [of i j "k - j"] by simp

lemma round_robin_split:
  assumes "a \<le> b" and "b \<le> HAND_SIZE * 4"
  shows "length (filter (\<lambda>i. order ! (i mod 4) = p) [0..<a])
       + length (filter (\<lambda>i. order ! (i mod 4) = p) [a..<b])
       + length (filter (\<lambda>i. order ! (i mod 4) = p) [b..<HAND_SIZE * 4]) = 8"
proof -
  have "[0..<HAND_SIZE * 4] = [0..<a] @ [a..<b] @ [b..<HAND_SIZE * 4]"
    using assms upt_split [of 0 a "HAND_SIZE * 4"] upt_split [of a b "HAND_SIZE * 4"] by simp
  then have "length (filter (\<lambda>i. order ! (i mod 4) = p) [0..<HAND_SIZE * 4])
       = length (filter (\<lambda>i. order ! (i mod 4) = p) [0..<a])
       + length (filter (\<lambda>i. order ! (i mod 4) = p) [a..<b])
       + length (filter (\<lambda>i. order ! (i mod 4) = p) [b..<HAND_SIZE * 4])"
    by simp
  then show ?thesis
    by (simp add: round_robin_count)
qed


lemma addLog_length_le: "length (addLog m lg) \<le> Suc (length lg)"
  by (simp add: addLog_def Let_def)

lemma performDrawCommit_log:
  "length (gameLog (performDrawCommit pid l atk s)) \<le> Suc (length (gameLog s))"
  by (simp add: performDrawCommit_def Let_def advanceTurn_def addLog_length_le)

lemma finishDealing_log:
  "length (gameLog (finishDealing s)) \<le> Suc (length (gameLog s))"
  by (simp add: finishDealing_def Let_def addLog_length_le)

lemma finishDealing_attackStack:
  "attackStack s = 0 \<Longrightarrow> attackStack (finishDealing s) = 0 \<or> attackStack (finishDealing s) = 2"
  by (simp add: finishDealing_def Let_def)

text \<open>The state after the first \<open>k\<close> ticks of the deal.\<close>

lemma ticks_shape:
  assumes "k \<le> HAND_SIZE * 4"
  shows "foldl dealCallback (startDeal rs initialState) [0..<k]
           = foldl dealTick (startDeal rs initialState) [0..<k]"
    and "currentTurn (foldl dealTick (startDeal rs initialState) [0..<k]) = south"
    and "winner (foldl dealTick (startDeal rs initialState) [0..<k]) = None"
    and "\<not> isSuitSelectionOpen (foldl dealTick (startDeal rs initialState) [0..<k])"
    and "attackStack (foldl dealTick (startDeal rs initialState) [0..<k]) = 0"
    and "discardPile (foldl dealTick (startDeal rs initialState) [0..<k]) = []"
    and "gameLog (foldl dealTick (startDeal rs initialState) [0..<k]) = []"
    and "length (deck (foldl dealTick (startDeal rs initialState) [0..<k])) = 52 - k"
    and "length (hands (foldl dealTick (startDeal rs initialState) [0..<k]) p)
           = length (filter (\<lambda>i. order ! (i mod 4) = p) [0..<k])"
proof -
  let ?s0 = "startDeal rs initialState"
  show "foldl dealCallback ?s0 [0..<k] = foldl dealTick ?s0 [0..<k]"
    using assms by (rule dealCallback_ticks)
  show "currentTurn (foldl dealTick ?s0 [0..<k]) = south"
    by (simp add: startDeal_def initialState_def)
  show "winner (foldl dealTick ?s0 [0..<k]) = None"
    "attackStack (foldl dealTick ?s0 [0..<k]) = 0"
    "discardPile (foldl dealTick ?s0 [0..<k]) = []"
    "gameLog (foldl dealTick ?s0 [0..<k]) = []"
    by simp_all
  show "\<not> isSuitSelectionOpen (foldl dealTick ?s0 [0..<k])"
    by (simp add: initialState_def)
  show "length (deck (foldl dealTick ?s0 [0..<k])) = 52 - k"
    by (simp add: length_shuffleDeck length_createDeck)
  have "length [0..<k] \<le> length (deck ?s0)"
    using assms by (simp add: length_shuffleDeck length_createDeck HAND_SIZE_def)
  then show "length (hands (foldl dealTick ?s0 [0..<k]) p)
           = length (filter (\<lambda>i. order ! (i mod 4) = p) [0..<k])"
    by (simp add: dealTicks_hand)
qed

lemma deckClick_shape:
  assumes k: "k \<le> HAND_SIZE * 4" and km: "k + m \<le> HAND_SIZE * 4 + 1"
  shows "gameInv (deckClickDuringDeal rs rs' k m)"
    and "length (gameLog (deckClickDuringDeal rs rs' k m)) \<le> 2"
proof -
  let ?cnt = "\<lambda>p ks. length (filter (\<lambda>i. order ! (i mod 4) = p) ks)"
  let ?s1 = "foldl dealTick (startDeal rs initialState) [0..<k]"
  note s1 = ticks_shape [OF k, of rs]
  have k32: "k \<le> 32" using k by (simp add: HAND_SIZE_def)
  note lens = length_shuffleDeck length_createDeck
  have "0 < length (deck ?s1)"
    using s1(8) k32 by linarith
  then have ne1: "deck ?s1 \<noteq> []"
    by (rule length_greater_0_conv [THEN iffD1])
  let ?l = "\<lparr>currentD = butlast (deck ?s1), currentDP = [], drawnCards = [last (deck ?s1)],
      didReshuffle = False, log_loop = [], rand_loop = rs'\<rparr>"
  have l: "drawn rs' 1 ?s1 = ?l"
    using drawn_one [OF ne1, of rs'] s1(6,7) by simp
  have same: "?s1\<lparr>gameLog := []\<rparr> = ?s1"
    using s1(7) by simp
  have unfold: "deckClickDuringDeal rs rs' k m
      = winnerEffect (foldl dealCallback
          (performDrawCommit south ?l 0 (foldl dealCallback ?s1 [k..<k + m]))
          [k + m..<HAND_SIZE * 4 + 1])"
  proof -
    have guard: "\<not> (currentTurn ?s1 \<noteq> south \<or> winner ?s1 \<noteq> None \<or> isSuitSelectionOpen ?s1)"
      using s1(2,3,4) by blast
    have dc: "(if attackStack ?s1 > 0 then attackStack ?s1 else 1) = 1"
      using s1(5) by simp
    show ?thesis
      unfolding deckClickDuringDeal_def Let_def s1(1)
      by (simp only: guard if_False s1(5) less_irrefl l DrawLoop.select_convs same)
  qed
  have final: "gameInv (winnerEffect t) \<and> length (gameLog (winnerEffect t)) \<le> 2"
    if "\<And>p. hands t p \<noteq> []" "winner t = None" "\<not> isSuitSelectionOpen t"
      "attackStack t = 0 \<or> attackStack t = 2" "\<not> isDealing t" "discardPile t \<noteq> []"
      "length (gameLog t) \<le> 2" for t
  proof -
    have "winnerEffect t = t"
      using that(1) by (intro winnerEffect_id) simp
    moreover have "gameInv t"
      using that by (auto simp: gameInv_def)
    ultimately show ?thesis
      using that(7) by simp
  qed
  have "gameInv (deckClickDuringDeal rs rs' k m)
      \<and> length (gameLog (deckClickDuringDeal rs rs' k m)) \<le> 2"
  proof (cases "k + m \<le> HAND_SIZE * 4")
    case True
    then have km32: "k + m \<le> 32" by (simp add: HAND_SIZE_def)
    let ?s2 = "foldl dealTick ?s1 [k..<k + m]"
    let ?s3 = "performDrawCommit south ?l 0 ?s2"
    let ?t = "foldl dealTick ?s3 [k + m..<HAND_SIZE * 4]"
    have eq: "deckClickDuringDeal rs rs' k m = winnerEffect (finishDealing ?t)"
      by (simp only: unfold dealCallback_ticks [OF True] dealCallback_finish [OF True])
    have h2: "length (hands ?s2 p) = ?cnt p [0..<k] + ?cnt p [k..<k + m]" for p
      using s1(9) km32 by (simp add: dealTicks_hand lens)
    have d3: "length (deck ?s3) = 51 - k"
      by (simp add: lens)
    have h3: "length (hands ?s3 p) \<ge> length (hands ?s2 p)" for p
      by simp
    have ht: "length (hands ?t p) = length (hands ?s3 p) + ?cnt p [k + m..<HAND_SIZE * 4]" for p
      using d3 km32 by (intro dealTicks_hand) (simp add: HAND_SIZE_def)
    have "length (hands ?t p) \<ge> 8" for p
      using round_robin_split [of k "k + m" p] True h2 [of p] h3 [of p] ht [of p] by simp
    then have hands: "hands ?t p \<noteq> []" for p
      by (metis length_0_conv not_numeral_le_zero)
    have "length (deck ?t) = length (deck ?s3) - length [k + m..<HAND_SIZE * 4]"
      by (rule dealTicks_fields)
    then have "0 < length (deck ?t)"
      using d3 km32 by (simp add: HAND_SIZE_def)
    then have net: "deck ?t \<noteq> []"
      by (rule length_greater_0_conv [THEN iffD1])
    note f = finishDealing_fields [OF net]
    have "attackStack ?t = 0" using s1(5) by simp
    then have atk: "attackStack (finishDealing ?t) = 0 \<or> attackStack (finishDealing ?t) = 2"
      by (rule finishDealing_attackStack)
    have "length (gameLog ?s3) \<le> 1"
      using performDrawCommit_log [of south ?l 0 ?s2] s1(7) by simp
    then have log: "length (gameLog (finishDealing ?t)) \<le> 2"
      using finishDealing_log [of ?t] by simp
    have "gameInv (winnerEffect (finishDealing ?t))
        \<and> length (gameLog (winnerEffect (finishDealing ?t))) \<le> 2"
      using hands atk log s1(3,4) by (intro final) (simp_all add: f)
    with eq show ?thesis by simp
  next
    case False
    with km have km33: "k + m = HAND_SIZE * 4 + 1" by simp
    let ?u = "foldl dealTick ?s1 [k..<HAND_SIZE * 4]"
    let ?t = "performDrawCommit south ?l 0 (finishDealing ?u)"
    have eq: "deckClickDuringDeal rs rs' k m = winnerEffect ?t"
      by (simp only: unfold km33 dealCallback_finish [OF k] upt_conv_Nil [OF order_refl] foldl_Nil)
    have "length (deck ?u) = length (deck ?s1) - length [k..<HAND_SIZE * 4]"
      by (rule dealTicks_fields)
    then have "0 < length (deck ?u)"
      using s1(8) k32 by (simp add: HAND_SIZE_def)
    then have neu: "deck ?u \<noteq> []"
      by (rule length_greater_0_conv [THEN iffD1])
    note f = finishDealing_fields [OF neu]
    have "length (hands ?u p) = ?cnt p [0..<k] + ?cnt p [k..<HAND_SIZE * 4]" for p
      using s1(9) k32 by (simp add: dealTicks_hand HAND_SIZE_def lens)
    then have "length (hands ?u p) = 8" for p
      using round_robin_split [of k "HAND_SIZE * 4" p] k by simp
    then have "hands ?u p \<noteq> []" for p
      by (metis length_0_conv zero_neq_numeral)
    then have hands: "hands ?t p \<noteq> []" for p
      by (simp add: f)
    have "attackStack ?u = 0" using s1(5) by simp
    then have atk: "attackStack ?t = 0 \<or> attackStack ?t = 2"
      using finishDealing_attackStack [of ?u] by simp
    have "length (gameLog (finishDealing ?u)) \<le> 1"
      using finishDealing_log [of ?u] s1(7) by simp
    then have log: "length (gameLog ?t) \<le> 2"
      using performDrawCommit_log [of south ?l 0 "finishDealing ?u"] by simp
    have "gameInv (winnerEffect ?t) \<and> length (gameLog (winnerEffect ?t)) \<le> 2"
      using hands atk log s1(3,4) by (intro final) (simp_all add: f)
    with eq show ?thesis by simp
  qed
  then show "gameInv (deckClickDuringDeal rs rs' k m)"
    and "length (gameLog (deckClickDuringDeal rs rs' k m)) \<le> 2"
    by simp_all
qed

lemma reachable_gameInv: "reachable s \<Longrightarrow> gameInv s"
  by (induction rule: reachable.induct)
    (simp_all add: deal_wellFormed wellFormed_gameInv deckClick_shape step_gameInv)

lemma reachable_run: "reachable s \<Longrightarrow> reachable (run es s)"
proof (induction es arbitrary: s)
  case Nil
  then show ?case by simp
next
  case (Cons x es)
  obtain rs e where x: "x = (rs, e)" by (cases x)
  have "reachable (step rs e s)"
    using Cons.prems by (rule reachable_step)
  then have "reachable (run es (step rs e s))"
    by (rule Cons.IH)
  with x show ?case by simp
qed

subsection \<open>Evaluated states\<close>

lemma observe_deal:
  "observe south (deal []) =
     ([twoOfHearts, cardOf ''card-48'' spades RJ, cardOf ''card-44'' spades R7,
       cardOf ''card-40'' spades R3, cardOf ''card-36'' clubs RQ, cardOf ''card-32'' clubs R8,
       cardOf ''card-28'' clubs R4, cardOf ''card-24'' diamonds RK],
      Some (cardOf ''card-20'' diamonds R9), south, diamonds, 0, None, False)"
  by code_simp

lemma observe_stateWestToMove:
  "observe west stateWestToMove =
     ([cardOf ''card-51'' spades RA, cardOf ''card-47'' spades R10, cardOf ''card-43'' spades R6,
       cardOf ''card-39'' spades R2, cardOf ''card-35'' clubs RJ, cardOf ''card-31'' clubs R7,
       cardOf ''card-27'' clubs R3, cardOf ''card-23'' diamonds RQ],
      Some (cardOf ''card-24'' diamonds RK), west, diamonds, 0, None, False)"
  by code_simp

lemma observe_stateBeforeLast:
  "observe south stateBeforeLast =
     ([twoOfHearts], Some (cardOf ''card-48'' spades RJ), south, hearts, 0, None, False)"
  by code_simp

lemma observe_stateWon:
  "observe south stateWon = ([], Some twoOfHearts, south, hearts, 0, Some south, False)"
  by code_simp

lemma logCheck_stateLongLog:
  "logCheck [] ClickDeck stateLongLog = (50, False)"
  by code_simp

lemma narrate_stateLongLog:
  "narrate [] ClickDeck stateLongLog = [''You drew a card.'']"
  by code_simp

lemma run_append: "run (es @ fs) s = run fs (run es s)"
  by (induction es arbitrary: s) auto

lemma stateWon_step: "stateWon = step [] (ClickCard twoOfHearts) stateBeforeLast"
  by (simp add: stateWon_def stateBeforeLast_def run_append)

lemma reachable_examples:
  "reachable stateBeforeLast" "reachable stateWon" "reachable stateLongLog"
  "reachable stateWestToMove"
  by (simp_all add: stateBeforeLast_def stateWon_def stateLongLog_def stateWestToMove_def
      reachable_run reachable_deal)

lemma reachable_stateDealClicked: "reachable stateDealClicked"
  unfolding stateDealClicked_def by (rule reachable_deal_click) (simp_all add: HAND_SIZE_def)

lemma census_stateDealClicked:
  "census stateDealClicked = (64, 52, 30, [9, 8, 8, 8], 1)"
  by code_simp

subsection \<open>The log\<close>

lemma addLogs_simps [simp]:
  "addLogs [] lg = lg"
  "addLogs (m # ms) lg = addLogs ms (addLog m lg)"
  "addLogs (ms @ ns) lg = addLogs ns (addLogs ms lg)"
  by (simp_all add: addLogs_def)

lemma addLog_suffix: "suffix (addLog m lg) (lg @ [m])"
proof (cases "lg @ [m]")
  case Nil
  then show ?thesis by simp
next
  case (Cons x xs)
  then have "suffix xs (lg @ [m])"
    by (simp add: suffix_Cons)
  with Cons show ?thesis
    by (simp add: addLog_def Let_def)
qed

lemma addLogs_suffix: "suffix (addLogs msgs lg) (lg @ msgs)"
proof (induction msgs arbitrary: lg)
  case Nil
  then show ?case by simp
next
  case (Cons m ms)
  have "suffix (addLogs ms (addLog m lg)) (addLog m lg @ ms)"
    by (rule Cons.IH)
  moreover have "suffix (addLog m lg @ ms) ((lg @ [m]) @ ms)"
    using addLog_suffix [of m lg] by (simp only: same_suffix_suffix)
  ultimately show ?case
    by (metis addLogs_simps(2) append_Cons append_Nil append_assoc suffix_order.trans)
qed

lemma addLog_window:
  assumes "length lg \<le> 50"
  shows "addLog m lg = drop (length (lg @ [m]) - 50) (lg @ [m])" "length (addLog m lg) \<le> 50"
proof -
  show "addLog m lg = drop (length (lg @ [m]) - 50) (lg @ [m])"
  proof (cases "length lg = 50")
    case True
    then have "length (lg @ [m]) - 50 = Suc 0" "lg \<noteq> []" by auto
    then show ?thesis
      using True by (simp add: addLog_def Let_def drop_Suc)
  next
    case False
    with assms show ?thesis by (simp add: addLog_def Let_def)
  qed
  show "length (addLog m lg) \<le> 50"
    using assms by (simp add: addLog_def Let_def)
qed

lemma addLogs_window:
  "length lg \<le> 50 \<Longrightarrow>
     addLogs msgs lg = drop (length (lg @ msgs) - 50) (lg @ msgs)"
proof (induction msgs arbitrary: lg)
  case Nil
  then show ?case by simp
next
  case (Cons m ms)
  let ?lg1 = "addLog m lg"
  have len1: "length ?lg1 \<le> 50"
    using Cons.prems by (rule addLog_window)
  have one: "?lg1 = drop (length (lg @ [m]) - 50) (lg @ [m])"
    using Cons.prems by (rule addLog_window)
  have "addLogs (m # ms) lg = drop (length (?lg1 @ ms) - 50) (?lg1 @ ms)"
    using Cons.IH [OF len1] by simp
  also have "\<dots> = drop (length (lg @ m # ms) - 50) (lg @ m # ms)"
  proof (cases "length lg = 50")
    case True
    then have "lg \<noteq> []" by auto
    with True have "?lg1 = tl lg @ [m]" "lg \<noteq> []"
      by (simp_all add: addLog_def Let_def)
    moreover have "length (lg @ m # ms) - 50 = Suc (length ms)"
      using True by simp
    moreover have "length ((tl lg @ [m]) @ ms) - 50 = length ms"
      using True by simp
    ultimately show ?thesis
      by (simp add: drop_Suc)
  next
    case False
    with Cons.prems have "?lg1 = lg @ [m]"
      by (simp add: addLog_def Let_def)
    then show ?thesis by simp
  qed
  finally show ?case .
qed

text \<open>The log after is the log before with some messages added by \<open>addLog\<close>.\<close>

lemma advanceTurn_log: "\<exists>msgs. gameLog (advanceTurn pc p s) = addLogs msgs (gameLog s)"
proof (cases "\<exists>c. pc = Some c \<and> rank c = RA")
  case True
  then have "gameLog (advanceTurn pc p s)
      = addLogs [getPlayerName p @ '' played Ace! Next player skipped.''] (gameLog s)"
    by (auto simp: advanceTurn_def)
  then show ?thesis ..
next
  case False
  then have "gameLog (advanceTurn pc p s) = addLogs [] (gameLog s)"
    by (auto simp: advanceTurn_def split: option.splits)
  then show ?thesis ..
qed

lemma log_then_advance:
  "\<exists>msgs. gameLog (advanceTurn pc p (s\<lparr>gameLog := addLog m (gameLog s)\<rparr>)) = addLogs msgs (gameLog s)"
proof -
  obtain ms where "gameLog (advanceTurn pc p (s\<lparr>gameLog := addLog m (gameLog s)\<rparr>))
      = addLogs ms (gameLog (s\<lparr>gameLog := addLog m (gameLog s)\<rparr>))"
    using advanceTurn_log by blast
  then have "gameLog (advanceTurn pc p (s\<lparr>gameLog := addLog m (gameLog s)\<rparr>))
      = addLogs (m # ms) (gameLog s)"
    by simp
  then show ?thesis ..
qed

lemma same_log: "gameLog s' = gameLog s \<Longrightarrow> \<exists>msgs. gameLog s' = addLogs msgs (gameLog s)"
  by (rule exI [of _ "[]"]) simp

lemma executePlay_log: "\<exists>msgs. gameLog (executePlay c pid s) = addLogs msgs (gameLog s)"
proof -
  let ?h = "filter (\<lambda>x. id_card x \<noteq> id_card c) (hands s pid)"
  let ?s1 = "s\<lparr>hands := (hands s)(pid := ?h), discardPile := discardPile s @ [c]\<rparr>"
  consider (won) "?h = []" | (human) "?h \<noteq> []" "rank c = RJ" "pid = south"
    | (ai) "?h \<noteq> []" "rank c = RJ" "pid \<noteq> south" | (plain) "?h \<noteq> []" "rank c \<noteq> RJ"
    by blast
  then show ?thesis
  proof cases
    case won
    then show ?thesis by (intro same_log) (simp add: executePlay_def Let_def)
  next
    case human
    then show ?thesis by (intro same_log) (simp add: executePlay_def Let_def)
  next
    case ai
    then have "executePlay c pid s = advanceTurn (Some c) pid
        ((?s1\<lparr>activeSuit := bestSuitOf ?h\<rparr>)\<lparr>gameLog := addLog (getPlayerName pid @ '' played Jack and chose ''
             @ suitStr (bestSuitOf ?h) @ ''.'') (gameLog (?s1\<lparr>activeSuit := bestSuitOf ?h\<rparr>))\<rparr>)"
      by (simp add: executePlay_def Let_def)
    then show ?thesis
      using log_then_advance [where s = "?s1\<lparr>activeSuit := bestSuitOf ?h\<rparr>"] by simp
  next
    case plain
    then have "executePlay c pid s = advanceTurn (Some c) pid
        ((?s1\<lparr>activeSuit := suit c\<rparr>)\<lparr>gameLog := addLog (getPlayerName pid @ '' played '' @ rankStr (rank c)
             @ '' of '' @ suitStr (suit c) @ ''.'') (gameLog (?s1\<lparr>activeSuit := suit c\<rparr>))\<rparr>)"
      by (simp add: executePlay_def Let_def)
    then show ?thesis
      using log_then_advance [where s = "?s1\<lparr>activeSuit := suit c\<rparr>"] by simp
  qed
qed

lemma draw_log:
  "\<exists>msgs. log_after (drawCardForPlayerLogic rs d dp lg) = addLogs msgs lg"
proof (cases "d = [] \<and> \<not> length dp \<le> 1")
  case True
  then have "log_after (drawCardForPlayerLogic rs d dp lg)
      = addLogs [''Deck reshuffled from discard pile.''] lg"
    by (simp add: drawCardForPlayerLogic_def reshuffleDiscard_def Let_def popCard_def)
  then show ?thesis ..
next
  case False
  then have "log_after (drawCardForPlayerLogic rs d dp lg) = addLogs [] lg"
    by (auto simp: drawCardForPlayerLogic_def reshuffleDiscard_def Let_def popCard_def)
  then show ?thesis ..
qed

lemma drawLoop_log: "\<exists>msgs. log_loop (drawLoop n l) = addLogs msgs (log_loop l)"
proof (induction n arbitrary: l)
  case 0
  have "log_loop (drawLoop 0 l) = addLogs [] (log_loop l)" by simp
  then show ?case ..
next
  case (Suc n)
  let ?res = "drawCardForPlayerLogic (rand_loop l) (currentD l) (currentDP l) (log_loop l)"
  obtain ms where ms: "log_after ?res = addLogs ms (log_loop l)"
    using draw_log by blast
  show ?case
  proof (cases "card_drawn ?res")
    case None
    then have "log_loop (drawLoop (Suc n) l) = addLogs ms (log_loop l)"
      using ms by (simp add: Let_def)
    then show ?thesis ..
  next
    case (Some c)
    let ?l1 = "l\<lparr>currentD := newDeck ?res, log_loop := log_after ?res, rand_loop := rand_after ?res\<rparr>"
    let ?l2 = "if reshuffled ?res then ?l1\<lparr>didReshuffle := True, currentDP := newDiscard ?res\<rparr> else ?l1"
    let ?l3 = "?l2\<lparr>drawnCards := drawnCards ?l2 @ [c]\<rparr>"
    have eq: "drawLoop (Suc n) l = drawLoop n ?l3"
      using Some by (simp add: Let_def)
    obtain ns where "log_loop (drawLoop n ?l3) = addLogs ns (log_loop ?l3)"
      using Suc.IH by blast
    moreover have "log_loop ?l3 = log_after ?res" by simp
    ultimately have "log_loop (drawLoop (Suc n) l) = addLogs (ms @ ns) (log_loop l)"
      using eq ms by simp
    then show ?thesis ..
  qed
qed

lemma performDraw_log: "\<exists>msgs. gameLog (performDraw rs pid n s) = addLogs msgs (gameLog s)"
proof -
  obtain ms where ms: "log_loop (drawn rs n s) = addLogs ms (gameLog s)"
    unfolding drawn_def
    using drawLoop_log [of "nat n" "\<lparr>currentD = deck s, currentDP = discardPile s, drawnCards = [],
        didReshuffle = False, log_loop = gameLog s, rand_loop = rs\<rparr>"]
    by auto
  let ?m = "if attackStack s > 0
            then getPlayerName pid @ '' drew '' @ showNat (length (drawnCards (drawn rs n s)))
                   @ '' cards (Attack Penalty).''
            else getPlayerName pid @ '' drew a card.''"
  have "gameLog (performDraw rs pid n s) = addLog ?m (log_loop (drawn rs n s))"
    by (simp add: performDraw_def Let_def drawn_def advanceTurn_def)
  then have "gameLog (performDraw rs pid n s) = addLogs (ms @ [?m]) (gameLog s)"
    using ms by simp
  then show ?thesis ..
qed

lemma handleSuitSelect_log: "\<exists>msgs. gameLog (handleSuitSelect su s) = addLogs msgs (gameLog s)"
proof -
  have "gameLog (handleSuitSelect su s) = addLogs [''You changed suit to '' @ suitStr su @ ''.''] (gameLog s)"
    by (simp add: handleSuitSelect_def advanceTurn_def)
  then show ?thesis ..
qed

lemma performAITurn_log: "\<exists>msgs. gameLog (performAITurn rs s) = addLogs msgs (gameLog s)"
  unfolding performAITurn_def Let_def
  by (auto split: option.splits intro: same_log executePlay_log performDraw_log)

lemma step_log: "\<exists>msgs. gameLog (step rs e s) = addLogs msgs (gameLog s)"
proof (cases e)
  case (ClickCard c)
  then show ?thesis
    by (auto simp: step_def handleCardClick_def Let_def intro: same_log executePlay_log)
next
  case ClickDeck
  then show ?thesis
    by (auto simp: step_def handleDeckClick_def Let_def intro: same_log performDraw_log)
next
  case (SelectSuit su)
  then show ?thesis
    by (auto simp: step_def intro: same_log handleSuitSelect_log)
next
  case AITurn
  then show ?thesis
    by (simp add: step_def performAITurn_log)
qed

subsection \<open>The decision policy\<close>

lemma find_filter: "List.find P (filter Q xs) = List.find (\<lambda>x. Q x \<and> P x) xs"
  by (induction xs) auto

lemma firstOf_hd: "xs \<noteq> [] \<Longrightarrow> firstOf xs = Some (hd xs)"
  by (cases xs) (simp_all add: firstOf_def)

lemma find_in: "List.find P xs = Some x \<Longrightarrow> x \<in> set xs \<and> P x"
  by (auto simp: find_Some_iff)

text \<open>
  Without an attack, a valid move that is not a Jack has the active suit or the top card's
  rank, so one of the two searches of the policy succeeds whenever \<open>nonJacks\<close> is not
  empty.
\<close>

lemma aiChoice_no_attack:
  assumes vm: "validMoves = filter (\<lambda>c. isValidMove c (Some t) actSuit atk) hand"
    and atk: "atk \<le> 0"
  shows "aiChoice validMoves t actSuit atk =
     (case List.find (\<lambda>x. rank x \<noteq> RJ \<and> suit x = actSuit) validMoves of
        Some x \<Rightarrow> Some x
      | None \<Rightarrow>
          (case List.find (\<lambda>x. rank x \<noteq> RJ \<and> rank x = rank t) validMoves of
             Some x \<Rightarrow> Some x
           | None \<Rightarrow> firstOf validMoves))"
    and "List.find (\<lambda>x. rank x \<noteq> RJ \<and> suit x = actSuit) validMoves = None
           \<Longrightarrow> List.find (\<lambda>x. rank x \<noteq> RJ \<and> rank x = rank t) validMoves = None
           \<Longrightarrow> \<forall>x\<in>set validMoves. rank x = RJ"
proof -
  let ?nj = "filter (\<lambda>c. rank c \<noteq> RJ) validMoves"
  have legal: "suit x = actSuit \<or> rank x = rank t" if "x \<in> set ?nj" for x
    using that atk unfolding vm by (auto simp: isValidMove_def split: if_splits)
  show all: "\<forall>x\<in>set validMoves. rank x = RJ"
    if "List.find (\<lambda>x. rank x \<noteq> RJ \<and> suit x = actSuit) validMoves = None"
      "List.find (\<lambda>x. rank x \<noteq> RJ \<and> rank x = rank t) validMoves = None"
  proof
    fix x assume x: "x \<in> set validMoves"
    show "rank x = RJ"
    proof (rule ccontr)
      assume "rank x \<noteq> RJ"
      with x have "x \<in> set ?nj" by simp
      from legal [OF this] \<open>rank x \<noteq> RJ\<close> x that show False
        by (auto simp: find_None_iff)
    qed
  qed
  show "aiChoice validMoves t actSuit atk =
     (case List.find (\<lambda>x. rank x \<noteq> RJ \<and> suit x = actSuit) validMoves of
        Some x \<Rightarrow> Some x
      | None \<Rightarrow>
          (case List.find (\<lambda>x. rank x \<noteq> RJ \<and> rank x = rank t) validMoves of
             Some x \<Rightarrow> Some x
           | None \<Rightarrow> firstOf validMoves))"
  proof (cases "?nj = []")
    case True
    then have "\<And>x. x \<in> set validMoves \<Longrightarrow> rank x = RJ"
      by (auto simp: filter_empty_conv)
    then have "List.find (\<lambda>x. rank x \<noteq> RJ \<and> suit x = actSuit) validMoves = None"
      "List.find (\<lambda>x. rank x \<noteq> RJ \<and> rank x = rank t) validMoves = None"
      by (auto simp: find_None_iff)
    with True atk show ?thesis
      by (simp add: aiChoice_def Let_def split: option.splits)
  next
    case False
    show ?thesis
    proof (cases "List.find (\<lambda>x. rank x \<noteq> RJ \<and> suit x = actSuit) validMoves")
      case (Some x)
      with False atk show ?thesis
        by (simp add: aiChoice_def Let_def find_filter)
    next
      case None
      show ?thesis
      proof (cases "List.find (\<lambda>x. rank x \<noteq> RJ \<and> rank x = rank t) validMoves")
        case (Some y)
        with None False atk show ?thesis
          by (simp add: aiChoice_def Let_def find_filter)
      next
        case none2: None
        from all [OF None none2] have "?nj = []"
          by (auto simp: filter_empty_conv)
        with False show ?thesis by simp
      qed
    qed
  qed
qed

lemma ai_priority_order_aux:
  assumes "validMoves = filter (\<lambda>c. isValidMove c (Some t) actSuit atk) hand"
    and "validMoves \<noteq> []"
  shows "\<exists>c. aiChoice validMoves t actSuit atk = Some c"
proof -
  have first: "firstOf validMoves = Some (hd validMoves)"
    using assms(2) by (rule firstOf_hd)
  show ?thesis
  proof (cases "0 < atk")
    case True
    then show ?thesis by (simp add: aiChoice_def first)
  next
    case False
    then have "atk \<le> 0" by simp
    from aiChoice_no_attack(1) [OF assms(1) this] first show ?thesis
      by (simp split: option.splits)
  qed
qed

subsection \<open>The log of the reachable states\<close>

lemma addLogs_length: "length lg \<le> 50 \<Longrightarrow> length (addLogs msgs lg) \<le> 50"
  by (induction msgs arbitrary: lg) (simp_all add: addLog_window)

lemma deal_log: "length (gameLog (deal rs)) = 1"
proof -
  have "length (deck (dealt rs)) = 20" by (rule dealt_fields)
  then have ne: "deck (dealt rs) \<noteq> []" by auto
  have "gameLog (dealt rs) = []" by (rule dealt_fields)
  then show ?thesis
    using ne by (simp add: deal_eq finishDealing_def Let_def addLog_def)
qed

lemma reachable_log: "reachable s \<Longrightarrow> length (gameLog s) \<le> 50"
proof (induction rule: reachable.induct)
  case (reachable_deal rs)
  then show ?case by (simp add: deal_log)
next
  case (reachable_deal_click k m rs rs')
  then have "length (gameLog (deckClickDuringDeal rs rs' k m)) \<le> 2"
    by (rule deckClick_shape)
  then show ?case by simp
next
  case (reachable_step s rs e)
  obtain msgs where "gameLog (step rs e s) = addLogs msgs (gameLog s)"
    using step_log by blast
  with reachable_step.IH show ?case
    by (simp add: addLogs_length)
qed

subsection \<open>The messages of a transition do not depend on the log\<close>

lemma addLogs_full:
  "50 \<le> length lg \<Longrightarrow> addLogs msgs lg = drop (length msgs) (lg @ msgs)"
proof (induction msgs arbitrary: lg)
  case Nil
  then show ?case by simp
next
  case (Cons m ms)
  then have ne: "lg \<noteq> []" by auto
  with Cons.prems have one: "addLog m lg = tl lg @ [m]"
    by (simp add: addLog_def Let_def)
  then have "50 \<le> length (addLog m lg)"
    using Cons.prems by simp
  then have "addLogs ms (addLog m lg) = drop (length ms) (addLog m lg @ ms)"
    by (rule Cons.IH)
  then have "addLogs (m # ms) lg = drop (length ms) (tl (lg @ m # ms))"
    using one ne by simp
  moreover have "drop (length (m # ms)) (lg @ m # ms) = drop (length ms) (tl (lg @ m # ms))"
    by (simp only: length_Cons drop_Suc)
  ultimately show ?case
    by (simp only:)
qed

lemma addLogs_exact:
  "addLogs msgs lg =
     drop (if 50 \<le> length lg then length msgs else length lg + length msgs - 50) (lg @ msgs)"
proof (cases "50 \<le> length lg")
  case True
  then show ?thesis by (simp add: addLogs_full)
next
  case False
  then have "length lg \<le> 50" by simp
  then have "addLogs msgs lg = drop (length (lg @ msgs) - 50) (lg @ msgs)"
    by (rule addLogs_window)
  with False show ?thesis by simp
qed

lemma addLogs_empty: "length msgs \<le> 50 \<Longrightarrow> addLogs msgs [] = msgs"
  using addLogs_window [of "[]" msgs] by simp

lemma appends_same: "appends n (\<lambda>lg. lg)"
  unfolding appends_def by (rule exI [of _ "[]"]) simp

lemma appends_addLog:
  assumes "appends n f"
  shows "appends (Suc n) (\<lambda>lg. addLog m (f lg))"
proof -
  obtain msgs where "length msgs \<le> n" "\<forall>lg. f lg = addLogs msgs lg"
    using assms unfolding appends_def by blast
  then have "length (msgs @ [m]) \<le> Suc n \<and> (\<forall>lg. addLog m (f lg) = addLogs (msgs @ [m]) lg)"
    by simp
  then show ?thesis
    unfolding appends_def by blast
qed

lemma appends_mono: "appends n f \<Longrightarrow> n \<le> k \<Longrightarrow> appends k f"
  unfolding appends_def by (meson le_trans)

lemma appends_none: "appends 2 (\<lambda>lg. lg)"
  using appends_mono [OF appends_same, of 0 2] by simp

lemma appends_one: "appends 2 (\<lambda>lg. addLog m lg)"
  unfolding appends_def by (rule exI [of _ "[m]"]) simp

lemma appends_two: "appends 2 (\<lambda>lg. addLog m2 (addLog m1 lg))"
  unfolding appends_def by (rule exI [of _ "[m1, m2]"]) simp

lemma appends_log:
  assumes "appends n f"
  shows "length (f []) \<le> n" and "n \<le> 50 \<Longrightarrow> f lg = addLogs (f []) lg"
proof -
  obtain msgs where m: "length msgs \<le> n" "\<forall>lg. f lg = addLogs msgs lg"
    using assms unfolding appends_def by blast
  have "length (addLogs msgs []) \<le> length msgs"
    using addLogs_suffix [of msgs "[]"] by (simp add: suffix_length_le)
  with m show "length (f []) \<le> n" by simp
  show "f lg = addLogs (f []) lg" if "n \<le> 50"
    using m that by (simp add: addLogs_empty)
qed

lemma advanceTurn_relog:
  "gameLog (advanceTurn pc p s) =
     (if \<exists>c. pc = Some c \<and> rank c = RA
      then addLog (getPlayerName p @ '' played Ace! Next player skipped.'') (gameLog s)
      else gameLog s)"
  by (auto simp: advanceTurn_def split: option.splits)

lemma executePlay_appends:
  "appends 2 (\<lambda>lg. gameLog (executePlay c pid (s\<lparr>gameLog := lg\<rparr>)))"
proof -
  let ?h = "filter (\<lambda>x. id_card x \<noteq> id_card c) (hands s pid)"
  let ?f = "\<lambda>lg. gameLog (executePlay c pid (s\<lparr>gameLog := lg\<rparr>))"
  let ?jack = "getPlayerName pid @ '' played Jack and chose '' @ suitStr (bestSuitOf ?h) @ ''.''"
  let ?play = "getPlayerName pid @ '' played '' @ rankStr (rank c) @ '' of '' @ suitStr (suit c) @ ''.''"
  let ?ace = "getPlayerName pid @ '' played Ace! Next player skipped.''"
  consider (quiet) "?h = [] \<or> (rank c = RJ \<and> pid = south)"
    | (ai) "?h \<noteq> []" "rank c = RJ" "pid \<noteq> south"
    | (ace) "?h \<noteq> []" "rank c = RA"
    | (plain) "?h \<noteq> []" "rank c \<noteq> RJ" "rank c \<noteq> RA"
    by blast
  then show ?thesis
  proof cases
    case quiet
    then have "?f = (\<lambda>lg. lg)"
      by (auto simp: executePlay_def Let_def)
    then show ?thesis
      by (simp add: appends_none)
  next
    case ai
    then have "?f = (\<lambda>lg. addLog ?jack lg)"
      by (simp add: executePlay_def Let_def advanceTurn_relog)
    then show ?thesis
      by (simp add: appends_one)
  next
    case ace
    then have "?f = (\<lambda>lg. addLog ?ace (addLog ?play lg))"
      by (simp add: executePlay_def Let_def advanceTurn_relog)
    then show ?thesis
      by (simp add: appends_two)
  next
    case plain
    then have "?f = (\<lambda>lg. addLog ?play lg)"
      by (simp add: executePlay_def Let_def advanceTurn_relog)
    then show ?thesis
      by (simp add: appends_one)
  qed
qed

text \<open>
  The draw primitive does not look at the log: it logs the reshuffle, if any. A reshuffle
  needs more than one discard card and leaves one, so one draw loop logs at most one.
\<close>

lemma draw_reshuffled:
  "reshuffled (drawCardForPlayerLogic rs d dp lg) \<Longrightarrow> 1 < length dp"
  "reshuffled (drawCardForPlayerLogic rs d dp lg)
     \<Longrightarrow> length (newDiscard (drawCardForPlayerLogic rs d dp lg)) = 1"
  by (auto simp: drawCardForPlayerLogic_def reshuffleDiscard_def popCard_def Let_def
      split: if_splits)

lemma drawLoop_relog:
  "\<exists>msgs. length msgs \<le> 1 \<and> (length (currentDP l) \<le> 1 \<longrightarrow> msgs = []) \<and>
          (\<forall>lg. drawLoop n (l\<lparr>log_loop := lg\<rparr>) = (drawLoop n l)\<lparr>log_loop := addLogs msgs lg\<rparr>)"
proof (induction n arbitrary: l)
  case 0
  have "length ([]::string list) \<le> 1 \<and> (length (currentDP l) \<le> 1 \<longrightarrow> ([]::string list) = []) \<and>
          (\<forall>lg. drawLoop 0 (l\<lparr>log_loop := lg\<rparr>) = (drawLoop 0 l)\<lparr>log_loop := addLogs [] lg\<rparr>)"
    by simp
  then show ?case by blast
next
  case (Suc n)
  define r where "r = drawCardForPlayerLogic (rand_loop l) (currentD l) (currentDP l) []"
  let ?m1 = "if reshuffled r then [''Deck reshuffled from discard pile.''] else []"
  have rl: "drawCardForPlayerLogic (rand_loop l) (currentD l) (currentDP l) lg
      = r\<lparr>log_after := addLogs ?m1 lg\<rparr>" for lg
    unfolding r_def
    by (simp add: drawCardForPlayerLogic_def reshuffleDiscard_def popCard_def Let_def)
  have resh: "1 < length (currentDP l) \<and> length (newDiscard r) = 1" if "reshuffled r"
    using that draw_reshuffled [of "rand_loop l" "currentD l" "currentDP l" "[]"]
    unfolding r_def by blast
  define l2 where "l2 =
    (if reshuffled r
     then l\<lparr>currentD := newDeck r, rand_loop := rand_after r, didReshuffle := True,
            currentDP := newDiscard r\<rparr>
     else l\<lparr>currentD := newDeck r, rand_loop := rand_after r\<rparr>)"
  have m1: "length ?m1 \<le> 1" "length (currentDP l) \<le> 1 \<longrightarrow> ?m1 = []"
    using resh by auto
  show ?case
  proof (cases "card_drawn r")
    case None
    have A: "drawLoop (Suc n) (l\<lparr>log_loop := lg\<rparr>) = l2\<lparr>log_loop := addLogs ?m1 lg\<rparr>" for lg
      using None unfolding l2_def by (simp add: Let_def rl)
    have "drawLoop (Suc n) l = l2\<lparr>log_loop := addLogs ?m1 (log_loop l)\<rparr>"
      using A [of "log_loop l"] by simp
    then have "\<forall>lg. drawLoop (Suc n) (l\<lparr>log_loop := lg\<rparr>)
        = (drawLoop (Suc n) l)\<lparr>log_loop := addLogs ?m1 lg\<rparr>"
      using A by simp
    with m1 show ?thesis by blast
  next
    case (Some c)
    define l3 where "l3 = l2\<lparr>drawnCards := drawnCards l @ [c]\<rparr>"
    have A: "drawLoop (Suc n) (l\<lparr>log_loop := lg\<rparr>)
        = drawLoop n (l3\<lparr>log_loop := addLogs ?m1 lg\<rparr>)" for lg
      using Some unfolding l3_def l2_def by (simp add: Let_def rl, cases l, simp)
    obtain ms where ms: "length ms \<le> 1" "length (currentDP l3) \<le> 1 \<longrightarrow> ms = []"
      "\<And>lg. drawLoop n (l3\<lparr>log_loop := lg\<rparr>) = (drawLoop n l3)\<lparr>log_loop := addLogs ms lg\<rparr>"
      using Suc.IH [of l3] by blast
    have B: "drawLoop (Suc n) (l\<lparr>log_loop := lg\<rparr>)
        = (drawLoop n l3)\<lparr>log_loop := addLogs (?m1 @ ms) lg\<rparr>" for lg
      unfolding A ms(3) by simp
    have base: "drawLoop (Suc n) l = (drawLoop n l3)\<lparr>log_loop := addLogs (?m1 @ ms) (log_loop l)\<rparr>"
      using B [of "log_loop l"] by simp
    have all: "\<forall>lg. drawLoop (Suc n) (l\<lparr>log_loop := lg\<rparr>)
        = (drawLoop (Suc n) l)\<lparr>log_loop := addLogs (?m1 @ ms) lg\<rparr>"
      unfolding base B by simp
    have dp3: "currentDP l3 = (if reshuffled r then newDiscard r else currentDP l)"
      by (simp add: l3_def l2_def)
    have len: "length (?m1 @ ms) \<le> 1"
    proof (cases "reshuffled r")
      case True
      then have "length (currentDP l3) = 1"
        using resh dp3 by simp
      with ms(2) have "ms = []" by simp
      with True show ?thesis by simp
    next
      case False
      with ms(1) show ?thesis by simp
    qed
    have none: "length (currentDP l) \<le> 1 \<longrightarrow> ?m1 @ ms = []"
    proof
      assume short: "length (currentDP l) \<le> 1"
      then have nr: "\<not> reshuffled r" using resh by auto
      then have "currentDP l3 = currentDP l" using dp3 by simp
      with ms(2) short have "ms = []" by simp
      with nr show "?m1 @ ms = []" by simp
    qed
    from all len none show ?thesis by blast
  qed
qed

lemma performDraw_appends:
  "appends 2 (\<lambda>lg. gameLog (performDraw rs pid n (s\<lparr>gameLog := lg\<rparr>)))"
proof -
  let ?l0 = "\<lparr>currentD = deck s, currentDP = discardPile s, drawnCards = [],
        didReshuffle = False, log_loop = gameLog s, rand_loop = rs\<rparr>"
  obtain ms where ms: "length ms \<le> 1"
    "\<forall>lg. drawLoop (nat n) (?l0\<lparr>log_loop := lg\<rparr>) = (drawLoop (nat n) ?l0)\<lparr>log_loop := addLogs ms lg\<rparr>"
    using drawLoop_relog [of ?l0 "nat n"] by blast
  have d: "drawn rs n (s\<lparr>gameLog := lg\<rparr>) = (drawn rs n s)\<lparr>log_loop := addLogs ms lg\<rparr>" for lg
    using ms(2) [rule_format, of lg] by (simp add: drawn_def)
  let ?m = "if attackStack s > 0
            then getPlayerName pid @ '' drew '' @ showNat (length (drawnCards (drawn rs n s)))
                   @ '' cards (Attack Penalty).''
            else getPlayerName pid @ '' drew a card.''"
  have "gameLog (performDraw rs pid n (s\<lparr>gameLog := lg\<rparr>)) = addLogs (ms @ [?m]) lg" for lg
    by (simp add: performDraw_split d performDrawCommit_def Let_def advanceTurn_def)
  moreover have "length (ms @ [?m]) \<le> 2"
    using ms(1) by simp
  ultimately show ?thesis
    unfolding appends_def by blast
qed

lemma handleSuitSelect_appends:
  "appends 2 (\<lambda>lg. gameLog (handleSuitSelect su (s\<lparr>gameLog := lg\<rparr>)))"
proof -
  have "(\<lambda>lg. gameLog (handleSuitSelect su (s\<lparr>gameLog := lg\<rparr>)))
      = (\<lambda>lg. addLog (''You changed suit to '' @ suitStr su @ ''.'') lg)"
    by (simp add: handleSuitSelect_def advanceTurn_def)
  then show ?thesis
    using appends_mono [OF appends_addLog [OF appends_same], of 0 2] by simp
qed

lemma step_appends: "appends 2 (\<lambda>lg. gameLog (step rs e (s\<lparr>gameLog := lg\<rparr>)))"
proof -
  note same = appends_none
  show ?thesis
  proof (cases e)
    case (ClickCard c)
    show ?thesis
    proof (cases "c \<in> set (hands s south) \<and> \<not> (currentTurn s \<noteq> south \<or> winner s \<noteq> None \<or> isSuitSelectionOpen s)
        \<and> topOf (discardPile s) \<noteq> None \<and> isValidMove c (topOf (discardPile s)) (activeSuit s) (attackStack s)")
      case True
      then have "(\<lambda>lg. gameLog (step rs e (s\<lparr>gameLog := lg\<rparr>)))
          = (\<lambda>lg. gameLog (executePlay c south (s\<lparr>gameLog := lg\<rparr>)))"
        using ClickCard by (simp add: step_def handleCardClick_def Let_def)
      then show ?thesis by (simp add: executePlay_appends)
    next
      case False
      then have "(\<lambda>lg. gameLog (step rs e (s\<lparr>gameLog := lg\<rparr>))) = (\<lambda>lg. lg)"
        using ClickCard by (auto simp: step_def handleCardClick_def Let_def)
      then show ?thesis using same by simp
    qed
  next
    case ClickDeck
    show ?thesis
    proof (cases "currentTurn s \<noteq> south \<or> winner s \<noteq> None \<or> isSuitSelectionOpen s")
      case True
      then have "(\<lambda>lg. gameLog (step rs e (s\<lparr>gameLog := lg\<rparr>))) = (\<lambda>lg. lg)"
        using ClickDeck by (auto simp: step_def handleDeckClick_def)
      then show ?thesis using same by simp
    next
      case False
      then have "(\<lambda>lg. gameLog (step rs e (s\<lparr>gameLog := lg\<rparr>)))
          = (\<lambda>lg. gameLog (performDraw rs south (if attackStack s > 0 then attackStack s else 1)
                             (s\<lparr>gameLog := lg\<rparr>)))"
        using ClickDeck by (simp add: step_def handleDeckClick_def Let_def)
      then show ?thesis by (simp add: performDraw_appends)
    qed
  next
    case (SelectSuit su)
    show ?thesis
    proof (cases "isSuitSelectionOpen s")
      case True
      then have "(\<lambda>lg. gameLog (step rs e (s\<lparr>gameLog := lg\<rparr>)))
          = (\<lambda>lg. gameLog (handleSuitSelect su (s\<lparr>gameLog := lg\<rparr>)))"
        using SelectSuit by (simp add: step_def)
      then show ?thesis by (simp add: handleSuitSelect_appends)
    next
      case False
      then have "(\<lambda>lg. gameLog (step rs e (s\<lparr>gameLog := lg\<rparr>))) = (\<lambda>lg. lg)"
        using SelectSuit by (simp add: step_def)
      then show ?thesis using same by simp
    qed
  next
    case AITurn
    let ?vm = "filter (\<lambda>c. isValidMove c (topOf (discardPile s)) (activeSuit s) (attackStack s))
                 (hands s (currentTurn s))"
    consider (idle) "currentTurn s = south \<or> winner s \<noteq> None \<or> isDealing s \<or> topOf (discardPile s) = None"
      | (draw) "\<not> (currentTurn s = south \<or> winner s \<noteq> None \<or> isDealing s)"
          "topOf (discardPile s) \<noteq> None" "?vm = []"
      | (play) "\<not> (currentTurn s = south \<or> winner s \<noteq> None \<or> isDealing s)"
          "topOf (discardPile s) \<noteq> None" "?vm \<noteq> []"
      by blast
    then show ?thesis
    proof cases
      case idle
      then have "(\<lambda>lg. gameLog (step rs e (s\<lparr>gameLog := lg\<rparr>))) = (\<lambda>lg. lg)"
        using AITurn by (auto simp: step_def performAITurn_def)
      then show ?thesis using same by simp
    next
      case draw
      then have "(\<lambda>lg. gameLog (step rs e (s\<lparr>gameLog := lg\<rparr>)))
          = (\<lambda>lg. gameLog (performDraw rs (currentTurn s) (if attackStack s > 0 then attackStack s else 1)
                             (s\<lparr>gameLog := lg\<rparr>)))"
        using AITurn by (auto simp: step_def performAITurn_def Let_def)
      then show ?thesis by (simp add: performDraw_appends)
    next
      case play
      then obtain t where t: "topOf (discardPile s) = Some t" by auto
      show ?thesis
      proof (cases "aiChoice ?vm t (activeSuit s) (attackStack s)")
        case None
        then have "(\<lambda>lg. gameLog (step rs e (s\<lparr>gameLog := lg\<rparr>))) = (\<lambda>lg. lg)"
          using AITurn play t by (simp add: step_def performAITurn_def Let_def)
        then show ?thesis using same by simp
      next
        case (Some c)
        then have "(\<lambda>lg. gameLog (step rs e (s\<lparr>gameLog := lg\<rparr>)))
            = (\<lambda>lg. gameLog (executePlay c (currentTurn s) (s\<lparr>gameLog := lg\<rparr>)))"
          using AITurn play t by (simp add: step_def performAITurn_def Let_def)
        then show ?thesis by (simp add: executePlay_appends)
      qed
    qed
  qed
qed

lemma step_narrate:
  "length (narrate rs e s) \<le> 2" "gameLog (step rs e s) = addLogs (narrate rs e s) (gameLog s)"
proof -
  note a = appends_log [OF step_appends [of rs e s]]
  show "length (narrate rs e s) \<le> 2"
    using a(1) by (simp add: narrate_def)
  have "gameLog (step rs e (s\<lparr>gameLog := gameLog s\<rparr>)) = addLogs (narrate rs e s) (gameLog s)"
    unfolding narrate_def by (rule a(2)) simp
  then show "gameLog (step rs e s) = addLogs (narrate rs e s) (gameLog s)"
    by simp
qed

section \<open>Properties of the specification\<close>

text \<open>
  C1. For every card, top of discard, active suit and attack stack, \<open>isValidMove\<close> equals
  the reference predicate: false when the top card is absent; under an attack
  (\<open>attackStack > 0\<close>) true exactly for rank 2; otherwise a Jack is always legal and any
  other card is legal exactly when its suit is the active suit or its rank is the top
  card's rank.
\<close>

theorem isValidMove_refines_spec:
  "isValidMove c topCard actSuit atk = legal_spec c topCard actSuit atk"
  by (cases topCard) (auto simp: isValidMove_def legal_spec_def)

text \<open>
  C2. In every state reachable after the deal the deck, the four hands and the discard
  pile should together hold exactly 52 cards with pairwise distinct ids. The program
  breaks this: \<open>handleDeckClick\<close> does not test \<open>isDealing\<close>, and a click on the deck
  during the deal makes \<open>performDraw\<close> put back, after its wait, the deck it read before
  the wait, with the cards dealt in the meantime. On the deal in which every random index
  is 0, with the click after two ticks and twelve ticks during the wait, the state after
  the deal holds 64 cards and only 52 distinct ids.
\<close>

theorem deck_click_during_deal_duplicates_cards:
  "reachable stateDealClicked \<and> length (allCards stateDealClicked) = 64 \<and>
   length (remdups (map id_card (allCards stateDealClicked))) = 52 \<and>
   \<not> distinct (map id_card (allCards stateDealClicked)) \<and>
   length (deck stateDealClicked) = 30 \<and> length (hands stateDealClicked south) = 9"
proof -
  have c: "length (allCards stateDealClicked) = 64"
    "length (remdups (map id_card (allCards stateDealClicked))) = 52"
    "length (deck stateDealClicked) = 30" "length (hands stateDealClicked south) = 9"
    using census_stateDealClicked by (simp_all add: census_def order_def)
  have "\<not> distinct (map id_card (allCards stateDealClicked))"
  proof
    assume "distinct (map id_card (allCards stateDealClicked))"
    then have "remdups (map id_card (allCards stateDealClicked)) = map id_card (allCards stateDealClicked)"
      by (rule distinct_remdups_id)
    with c(1,2) show False by simp
  qed
  with c reachable_stateDealClicked show ?thesis by simp
qed

text \<open>
  When nobody clicks the deck during the deal, the property holds: every state reached from
  the deal by transitions holds the cards of \<open>createDeck\<close>, 52 cards with distinct ids.
\<close>

lemma deck_integrity_undisturbed:
  assumes "undisturbed s"
  shows "length (allCards s) = 52 \<and> distinct (map id_card (allCards s))
           \<and> mset (allCards s) = mset createDeck"
proof -
  have wf: "wellFormed s"
    using assms by (rule undisturbed_wellFormed)
  then have cards: "mset (allCards s) = mset createDeck"
    by (simp add: wellFormed_def)
  then have "length (allCards s) = length createDeck"
    by (metis size_mset)
  then have "length (allCards s) = 52"
    by (simp add: length_createDeck)
  moreover have "distinct (map id_card (allCards s))"
    using wf by (rule wellFormed_distinct_all)
  ultimately show ?thesis
    using cards by simp
qed



text \<open>
  C4. When the deck is empty and the discard pile holds more than one card, drawing one
  card sets the top discard card aside, shuffles the other discard cards into the new deck
  (a permutation of them), takes the drawn card from that new deck and leaves a discard
  pile made of the former top card alone; the top card and the active suit are unchanged.
\<close>

theorem reshuffle_keeps_top:
  assumes "deck s = []" and "1 < length (discardPile s)"
  shows "mset (shuffleDeck rs (butlast (discardPile s))) = mset (butlast (discardPile s)) \<and>
         drawCardForPlayerLogic rs (deck s) (discardPile s) lg =
           \<lparr>card_drawn = Some (last (shuffleDeck rs (butlast (discardPile s)))),
            newDeck = butlast (shuffleDeck rs (butlast (discardPile s))),
            newDiscard = [last (discardPile s)], reshuffled = True,
            log_after = addLog ''Deck reshuffled from discard pile.'' lg,
            rand_after = drop (length (butlast (discardPile s)) - 1) rs\<rparr> \<and>
         deck (performDraw rs pid 1 s) = butlast (shuffleDeck rs (butlast (discardPile s))) \<and>
         hands (performDraw rs pid 1 s) pid
           = hands s pid @ [last (shuffleDeck rs (butlast (discardPile s)))] \<and>
         discardPile (performDraw rs pid 1 s) = [last (discardPile s)] \<and>
         topOf (discardPile (performDraw rs pid 1 s)) = topOf (discardPile s) \<and>
         activeSuit (performDraw rs pid 1 s) = activeSuit s"
proof -
  let ?dp = "discardPile s"
  let ?sh = "shuffleDeck rs (butlast ?dp)"
  have ne: "?dp \<noteq> []" using assms(2) by auto
  have "length ?sh = length ?dp - 1"
    by (simp add: length_shuffleDeck)
  then have sh: "?sh \<noteq> []" using assms(2) by auto
  have res: "drawCardForPlayerLogic rs (deck s) ?dp lg =
           \<lparr>card_drawn = Some (last ?sh), newDeck = butlast ?sh,
            newDiscard = [last ?dp], reshuffled = True,
            log_after = addLog ''Deck reshuffled from discard pile.'' lg,
            rand_after = drop (length (butlast ?dp) - 1) rs\<rparr>" for lg
    using assms sh
    by (simp add: drawCardForPlayerLogic_def reshuffleDiscard_def popCard_def Let_def
        butlast_conv_take)
  have loop: "drawn rs 1 s =
      \<lparr>currentD = butlast ?sh, currentDP = [last ?dp], drawnCards = [last ?sh],
       didReshuffle = True, log_loop = addLog ''Deck reshuffled from discard pile.'' (gameLog s),
       rand_loop = drop (length (butlast ?dp) - 1) rs\<rparr>"
    using res [of "gameLog s"] assms(1) by (simp add: drawn_def Let_def)
  have top: "topOf [last ?dp] = topOf ?dp"
    using ne by (simp add: topOf_def)
  show ?thesis
    using res [of lg] top by (simp add: mset_shuffleDeck performDraw_piles loop)
qed

theorem reshuffle_keeps_top_witness:
  "deck (emptyDeckTable [cardOf ''card-20'' diamonds R9, cardOf ''card-24'' diamonds RK,
                          cardOf ''card-36'' clubs RQ]) = [] \<and>
   discardPile (performDraw [] south 1
       (emptyDeckTable [cardOf ''card-20'' diamonds R9, cardOf ''card-24'' diamonds RK,
                        cardOf ''card-36'' clubs RQ])) = [cardOf ''card-36'' clubs RQ] \<and>
   deck (performDraw [] south 1
       (emptyDeckTable [cardOf ''card-20'' diamonds R9, cardOf ''card-24'' diamonds RK,
                        cardOf ''card-36'' clubs RQ])) = [cardOf ''card-24'' diamonds RK] \<and>
   hands (performDraw [] south 1
       (emptyDeckTable [cardOf ''card-20'' diamonds R9, cardOf ''card-24'' diamonds RK,
                        cardOf ''card-36'' clubs RQ])) south
     = [cardOf ''card-2'' hearts R4, cardOf ''card-20'' diamonds R9]"
proof -
  let ?s = "emptyDeckTable [cardOf ''card-20'' diamonds R9, cardOf ''card-24'' diamonds RK,
                            cardOf ''card-36'' clubs RQ]"
  have d: "deck ?s = []" and l: "1 < length (discardPile ?s)"
    by (simp_all add: emptyDeckTable_def)
  have sh: "shuffleDeck [] (butlast (discardPile ?s))
              = [cardOf ''card-24'' diamonds RK, cardOf ''card-20'' diamonds R9]"
    by (simp add: emptyDeckTable_def shuffleDeck_def randomIndex_def)
  have h: "hands ?s south = [cardOf ''card-2'' hearts R4]"
    by (simp add: emptyDeckTable_def)
  have dp: "last (discardPile ?s) = cardOf ''card-36'' clubs RQ"
    by (simp add: emptyDeckTable_def)
  show ?thesis
    using d reshuffle_keeps_top [OF d l, of "[]" "[]" south]
    by (simp only: sh h dp) simp
qed

text \<open>
  C5. When the deck is empty and the discard pile holds at most one card, the draw
  primitive returns a result without a card and with both piles as they were; a draw of any
  number of cards then ends without a card drawn and leaves the deck, the discard pile and
  the hands unchanged; and a loop that meets this situation with iterations left stops
  with what it has.
\<close>

theorem exhausted_draw_is_inert:
  assumes "deck s = []" and "length (discardPile s) \<le> 1"
  shows "drawCardForPlayerLogic rs (deck s) (discardPile s) lg =
           \<lparr>card_drawn = None, newDeck = deck s, newDiscard = discardPile s, reshuffled = False,
            log_after = lg, rand_after = rs\<rparr> \<and>
         deck (performDraw rs pid n s) = deck s \<and>
         discardPile (performDraw rs pid n s) = discardPile s \<and>
         hands (performDraw rs pid n s) = hands s \<and>
         (currentD l = [] \<and> length (currentDP l) \<le> 1 \<longrightarrow> drawLoop k l = l)"
proof -
  have res: "drawCardForPlayerLogic rs [] dp lg =
           \<lparr>card_drawn = None, newDeck = [], newDiscard = dp, reshuffled = False,
            log_after = lg, rand_after = rs\<rparr>" if "length dp \<le> 1" for rs dp lg
    using that by (simp add: drawCardForPlayerLogic_def reshuffleDiscard_def)
  have stop: "drawLoop k l = l" if "currentD l = []" "length (currentDP l) \<le> 1" for k l
  proof (cases k)
    case 0
    then show ?thesis by simp
  next
    case (Suc j)
    have "l\<lparr>currentD := [], log_loop := log_loop l, rand_loop := rand_loop l\<rparr> = l"
      using that(1) by simp
    then show ?thesis
      using Suc that res [OF that(2)] by (simp add: Let_def)
  qed
  have "drawn rs n s = \<lparr>currentD = deck s, currentDP = discardPile s, drawnCards = [],
        didReshuffle = False, log_loop = gameLog s, rand_loop = rs\<rparr>"
    unfolding drawn_def using assms by (intro stop) simp_all
  then have "deck (performDraw rs pid n s) = deck s"
    "discardPile (performDraw rs pid n s) = discardPile s"
    "hands (performDraw rs pid n s) = hands s"
    by (simp_all add: performDraw_piles)
  then show ?thesis
    using res [OF assms(2)] assms(1) stop by simp
qed

theorem exhausted_draw_is_inert_witness:
  "deck (emptyDeckTable [twoOfHearts]) = [] \<and> length (discardPile (emptyDeckTable [twoOfHearts])) \<le> 1 \<and>
   card_drawn (drawCardForPlayerLogic [] (deck (emptyDeckTable [twoOfHearts]))
                 (discardPile (emptyDeckTable [twoOfHearts])) []) = None \<and>
   deck (performDraw [] south 3 (emptyDeckTable [twoOfHearts])) = [] \<and>
   discardPile (performDraw [] south 3 (emptyDeckTable [twoOfHearts])) = [twoOfHearts] \<and>
   hands (performDraw [] south 3 (emptyDeckTable [twoOfHearts])) = hands (emptyDeckTable [twoOfHearts])"
proof -
  let ?s = "emptyDeckTable [twoOfHearts]"
  have d: "deck ?s = []" and l: "length (discardPile ?s) \<le> 1"
    and dp: "discardPile ?s = [twoOfHearts]"
    by (simp_all add: emptyDeckTable_def)
  show ?thesis
    using d l dp exhausted_draw_is_inert [OF d l, of "[]" "[]" south 3] by simp
qed

text \<open>
  C6. A player whose turn it is and who holds a Jack as the only card, with no attack
  pending and a card on the discard pile: playing the Jack (the human player's click, or
  the non-human player's turn, which chooses it) makes this player the winner at once; the
  suit choice is not opened, no suit is chosen, and the turn does not move.
\<close>

theorem last_jack_wins:
  assumes "hands s pid = [c]" and "rank c = RJ" and "attackStack s = 0"
    and "discardPile s \<noteq> []" and "currentTurn s = pid" and "winner s = None"
    and "\<not> isSuitSelectionOpen s" and "\<not> isDealing s"
  shows "(if pid = south then handleCardClick c s else performAITurn rs s) = executePlay c pid s \<and>
         winner (executePlay c pid s) = Some pid \<and>
         hands (executePlay c pid s) pid = [] \<and>
         \<not> isSuitSelectionOpen (executePlay c pid s) \<and>
         activeSuit (executePlay c pid s) = activeSuit s \<and>
         currentTurn (executePlay c pid s) = pid \<and>
         gameLog (executePlay c pid s) = gameLog s"
proof -
  have top: "topOf (discardPile s) = Some (last (discardPile s))"
    using assms(4) by (simp add: topOf_def)
  have valid: "isValidMove c (Some (last (discardPile s))) (activeSuit s) 0"
    using assms(2) by (simp add: isValidMove_def)
  have choice: "aiChoice [c] (last (discardPile s)) (activeSuit s) 0 = Some c"
    using assms(2) by (simp add: aiChoice_def firstOf_def)
  have human: "pid = south \<Longrightarrow> handleCardClick c s = executePlay c pid s"
    using assms top valid by (simp add: handleCardClick_def Let_def)
  have ai: "pid \<noteq> south \<Longrightarrow> performAITurn rs s = executePlay c pid s"
    using assms top valid choice by (simp add: performAITurn_def Let_def)
  have "filter (\<lambda>x. id_card x \<noteq> id_card c) (hands s pid) = []"
    using assms(1) by simp
  then have "executePlay c pid s
      = s\<lparr>hands := (hands s)(pid := []), discardPile := discardPile s @ [c], winner := Some pid\<rparr>"
    by (simp add: executePlay_def Let_def)
  then have fields: "winner (executePlay c pid s) = Some pid" "hands (executePlay c pid s) pid = []"
    "\<not> isSuitSelectionOpen (executePlay c pid s)" "activeSuit (executePlay c pid s) = activeSuit s"
    "currentTurn (executePlay c pid s) = pid" "gameLog (executePlay c pid s) = gameLog s"
    using assms(5,7) by simp_all
  have "(if pid = south then handleCardClick c s else performAITurn rs s) = executePlay c pid s"
    using human ai by (cases "pid = south") simp_all
  with fields show ?thesis by blast
qed

theorem last_jack_wins_witness:
  "winner (handleCardClick (cardOf ''card-48'' spades RJ) (jackTable south)) = Some south \<and>
   \<not> isSuitSelectionOpen (handleCardClick (cardOf ''card-48'' spades RJ) (jackTable south)) \<and>
   winner (performAITurn [] (jackTable west)) = Some west \<and>
   activeSuit (performAITurn [] (jackTable west)) = diamonds"
proof -
  let ?j = "cardOf ''card-48'' spades RJ"
  have a: "hands (jackTable p) p = [?j]" "rank ?j = RJ" "attackStack (jackTable p) = 0"
    "discardPile (jackTable p) \<noteq> []" "currentTurn (jackTable p) = p" "winner (jackTable p) = None"
    "\<not> isSuitSelectionOpen (jackTable p)" "\<not> isDealing (jackTable p)"
    "activeSuit (jackTable p) = diamonds" for p
    by (simp_all add: jackTable_def cardOf_def)
  show ?thesis
    using last_jack_wins [OF a(1-8), of south "[]"] last_jack_wins [OF a(1-8), of west "[]"] a(9)
    by simp
qed

text \<open>
  C7 as stated fails: in a reachable state the human player holds the 2 of hearts as the
  last card, it is a legal move, and playing it ends the game without adding 2 to the
  attack stack.
\<close>

theorem attack_on_last_card_counterexample:
  "reachable stateBeforeLast \<and> currentTurn stateBeforeLast = south \<and> winner stateBeforeLast = None \<and>
   \<not> isSuitSelectionOpen stateBeforeLast \<and> hands stateBeforeLast south = [twoOfHearts] \<and>
   rank twoOfHearts = R2 \<and>
   isValidMove twoOfHearts (topOf (discardPile stateBeforeLast)) (activeSuit stateBeforeLast)
     (attackStack stateBeforeLast) \<and>
   attackStack (step [] (ClickCard twoOfHearts) stateBeforeLast) \<noteq> attackStack stateBeforeLast + 2"
proof -
  have b: "hands stateBeforeLast south = [twoOfHearts]"
    "topOf (discardPile stateBeforeLast) = Some (cardOf ''card-48'' spades RJ)"
    "currentTurn stateBeforeLast = south" "activeSuit stateBeforeLast = hearts"
    "attackStack stateBeforeLast = 0" "winner stateBeforeLast = None"
    "\<not> isSuitSelectionOpen stateBeforeLast"
    using observe_stateBeforeLast by (simp_all add: observe_def)
  have w: "attackStack stateWon = 0"
    using observe_stateWon by (simp add: observe_def)
  have two: "rank twoOfHearts = R2" "suit twoOfHearts = hearts"
    by (simp_all add: twoOfHearts_def cardOf_def)
  have "isValidMove twoOfHearts (Some (cardOf ''card-48'' spades RJ)) hearts 0"
    using two by (simp add: isValidMove_def)
  then show ?thesis
    using b w two reachable_examples(1) by (simp add: stateWon_step [symmetric])
qed

text \<open>
  C7, amended. In every reachable state the attack stack is an even number that is not
  negative. After the deal it is 0 or 2. A play of a rank-2 card that leaves the player
  with cards adds exactly 2; a play of the last card ends the game and leaves the attack
  stack as it is, and so does a play of any other rank and a suit choice. A draw under
  attack resets it to 0; a draw without attack leaves it as it is.
\<close>

theorem attackStack_even:
  assumes "reachable s"
  shows "0 \<le> attackStack s \<and> even (attackStack s) \<and>
         (attackStack (deal rs) = 0 \<or> attackStack (deal rs) = 2) \<and>
         (rank c = R2 \<and> filter (\<lambda>x. id_card x \<noteq> id_card c) (hands t pid) \<noteq> []
            \<longrightarrow> attackStack (executePlay c pid t) = attackStack t + 2) \<and>
         (filter (\<lambda>x. id_card x \<noteq> id_card c) (hands t pid) = []
            \<longrightarrow> attackStack (executePlay c pid t) = attackStack t) \<and>
         (rank c \<noteq> R2 \<longrightarrow> attackStack (executePlay c pid t) = attackStack t) \<and>
         attackStack (handleSuitSelect su t) = attackStack t \<and>
         (0 < attackStack t \<longrightarrow> attackStack (performDraw rs' pid n t) = 0) \<and>
         (attackStack t \<le> 0 \<longrightarrow> attackStack (performDraw rs' pid n t) = attackStack t)"
proof -
  have "gameInv s"
    using assms by (rule reachable_gameInv)
  then have "0 \<le> attackStack s \<and> even (attackStack s)"
    by (simp add: gameInv_def)
  moreover have "attackStack (deal rs) = 0 \<or> attackStack (deal rs) = 2"
    by (simp add: deal_shape)
  ultimately show ?thesis
    by (simp add: executePlay_attackStack)
qed

theorem attackStack_even_witness:
  "reachable stateBeforeLast \<and> 0 \<le> attackStack stateBeforeLast \<and> even (attackStack stateBeforeLast) \<and>
   (attackStack (deal []) = 0 \<or> attackStack (deal []) = 2) \<and>
   attackStack (executePlay twoOfHearts south (deal [])) = attackStack (deal []) + 2 \<and>
   attackStack (executePlay twoOfHearts south stateBeforeLast) = attackStack stateBeforeLast \<and>
   attackStack (performDraw [] west 2 (executePlay twoOfHearts south (deal []))) = 0"
proof -
  have r: "reachable stateBeforeLast" by (rule reachable_examples)
  have d: "hands (deal []) south =
     [twoOfHearts, cardOf ''card-48'' spades RJ, cardOf ''card-44'' spades R7,
       cardOf ''card-40'' spades R3, cardOf ''card-36'' clubs RQ, cardOf ''card-32'' clubs R8,
       cardOf ''card-28'' clubs R4, cardOf ''card-24'' diamonds RK]" "attackStack (deal []) = 0"
    using observe_deal by (simp_all add: observe_def)
  have b: "hands stateBeforeLast south = [twoOfHearts]" "attackStack stateBeforeLast = 0"
    using observe_stateBeforeLast by (simp_all add: observe_def)
  have two: "rank twoOfHearts = R2"
    by (simp add: twoOfHearts_def cardOf_def)
  have rest: "filter (\<lambda>x. id_card x \<noteq> id_card twoOfHearts) (hands (deal []) south) \<noteq> []"
    by (simp add: d twoOfHearts_def cardOf_def)
  have last: "filter (\<lambda>x. id_card x \<noteq> id_card twoOfHearts) (hands stateBeforeLast south) = []"
    by (simp add: b)
  have play: "attackStack (executePlay twoOfHearts south (deal [])) = attackStack (deal []) + 2"
    using attackStack_even [OF r, of _ twoOfHearts "deal []" south] two rest by simp
  then have "0 < attackStack (executePlay twoOfHearts south (deal []))"
    using d(2) by simp
  then show ?thesis
    using r play last d(2)
      attackStack_even [OF r, of "[]" twoOfHearts stateBeforeLast south]
      attackStack_even [OF r, of "[]" twoOfHearts "executePlay twoOfHearts south (deal [])" west _ "[]" 2]
    by simp
qed

text \<open>
  C8 as stated fails: on the 5 of diamonds with diamonds active, a hand of the Jack of
  diamonds and the 5 of spades has a legal move of the active suit (the Jack), and the
  policy selects the 5 of spades, which is not of the active suit.
\<close>

theorem ai_priority_counterexample:
  "isValidMove (cardOf ''card-22'' diamonds RJ) (Some (cardOf ''card-16'' diamonds R5)) diamonds 0 \<and>
   suit (cardOf ''card-22'' diamonds RJ) = diamonds \<and>
   aiChoice
     (filter (\<lambda>c. isValidMove c (Some (cardOf ''card-16'' diamonds R5)) diamonds 0)
        [cardOf ''card-22'' diamonds RJ, cardOf ''card-42'' spades R5])
     (cardOf ''card-16'' diamonds R5) diamonds 0
     = Some (cardOf ''card-42'' spades R5) \<and>
   suit (cardOf ''card-42'' spades R5) \<noteq> diamonds"
  by (simp add: isValidMove_def aiChoice_def cardOf_def firstOf_def)

text \<open>
  C8, amended. For a hand with at least one legal move the policy selects a legal card of
  the hand. Under attack it is the first legal move, a 2. Without attack it is the first
  legal card that is not a Jack and has the active suit; when there is none, the first
  legal card that is not a Jack and has the top card's rank; when there is none either,
  every legal move is a Jack and the policy selects the first legal move.
\<close>

theorem ai_priority_order:
  assumes "validMoves = filter (\<lambda>c. isValidMove c (Some t) actSuit atk) hand"
    and "validMoves \<noteq> []"
  shows "\<exists>c. aiChoice validMoves t actSuit atk = Some c \<and> c \<in> set hand \<and>
           isValidMove c (Some t) actSuit atk \<and>
           (0 < atk \<longrightarrow> c = hd validMoves \<and> rank c = R2) \<and>
           (atk \<le> 0 \<longrightarrow>
              (case List.find (\<lambda>x. rank x \<noteq> RJ \<and> suit x = actSuit) validMoves of
                 Some x \<Rightarrow> c = x
               | None \<Rightarrow>
                   (case List.find (\<lambda>x. rank x \<noteq> RJ \<and> rank x = rank t) validMoves of
                      Some x \<Rightarrow> c = x
                    | None \<Rightarrow> c = hd validMoves \<and> (\<forall>x\<in>set validMoves. rank x = RJ))))"
proof -
  have first: "firstOf validMoves = Some (hd validMoves)"
    using assms(2) by (rule firstOf_hd)
  have hdin: "hd validMoves \<in> set validMoves"
    using assms(2) by simp
  have mem: "x \<in> set hand \<and> isValidMove x (Some t) actSuit atk" if "x \<in> set validMoves" for x
    using that unfolding assms(1) by simp
  show ?thesis
  proof (cases "0 < atk")
    case True
    then have "aiChoice validMoves t actSuit atk = Some (hd validMoves)"
      by (simp add: aiChoice_def first)
    moreover have "rank (hd validMoves) = R2"
      using mem [OF hdin] True by (simp add: isValidMove_def)
    ultimately show ?thesis
      using mem [OF hdin] True by simp
  next
    case False
    then have atk: "atk \<le> 0" by simp
    note eq = aiChoice_no_attack(1) [OF assms(1) atk]
    show ?thesis
    proof (cases "List.find (\<lambda>x. rank x \<noteq> RJ \<and> suit x = actSuit) validMoves")
      case (Some x)
      then have "x \<in> set validMoves" by (auto dest: find_in)
      with Some eq mem False show ?thesis by simp
    next
      case None
      show ?thesis
      proof (cases "List.find (\<lambda>x. rank x \<noteq> RJ \<and> rank x = rank t) validMoves")
        case (Some y)
        then have "y \<in> set validMoves" by (auto dest: find_in)
        with None Some eq mem False show ?thesis by simp
      next
        case none2: None
        have "\<forall>x\<in>set validMoves. rank x = RJ"
          using None none2 by (rule aiChoice_no_attack(2) [OF assms(1) atk])
        with None none2 eq first mem [OF hdin] False show ?thesis by simp
      qed
    qed
  qed
qed

theorem ai_priority_order_witness:
  "filter (\<lambda>c. isValidMove c (Some (cardOf ''card-16'' diamonds R5)) diamonds 0)
     [cardOf ''card-0'' hearts R2, cardOf ''card-22'' diamonds RJ, cardOf ''card-42'' spades R5,
      cardOf ''card-17'' diamonds R6] \<noteq> [] \<and>
   (\<exists>c. aiChoice
          (filter (\<lambda>c. isValidMove c (Some (cardOf ''card-16'' diamonds R5)) diamonds 0)
             [cardOf ''card-0'' hearts R2, cardOf ''card-22'' diamonds RJ,
              cardOf ''card-42'' spades R5, cardOf ''card-17'' diamonds R6])
          (cardOf ''card-16'' diamonds R5) diamonds 0 = Some c \<and>
        c = cardOf ''card-17'' diamonds R6)"
proof -
  let ?t = "cardOf ''card-16'' diamonds R5"
  let ?hand = "[cardOf ''card-0'' hearts R2, cardOf ''card-22'' diamonds RJ,
                cardOf ''card-42'' spades R5, cardOf ''card-17'' diamonds R6]"
  let ?vm = "filter (\<lambda>c. isValidMove c (Some ?t) diamonds 0) ?hand"
  have vm: "?vm = [cardOf ''card-22'' diamonds RJ, cardOf ''card-42'' spades R5,
                   cardOf ''card-17'' diamonds R6]"
    by (simp add: isValidMove_def cardOf_def)
  then have ne: "?vm \<noteq> []" by simp
  have f: "List.find (\<lambda>x. rank x \<noteq> RJ \<and> suit x = diamonds) ?vm = Some (cardOf ''card-17'' diamonds R6)"
    by (simp only: vm) (simp add: cardOf_def)
  from ai_priority_order [OF refl ne] f ne
  show ?thesis by auto
qed

text \<open>
  C9 as stated fails: in a reachable state whose log holds 50 entries, the human player's
  draw appends an entry and drops the oldest one, so the log before the draw is not the
  beginning of the log after it.
\<close>

theorem log_append_only_counterexample:
  "reachable stateLongLog \<and> length (gameLog stateLongLog) = 50 \<and>
   \<not> prefix (gameLog stateLongLog) (gameLog (step [] ClickDeck stateLongLog))"
  using logCheck_stateLongLog reachable_examples(3) by (simp add: logCheck_def)

text \<open>
  C9, amended. The log is a window of at most 50 entries on the sequence of all messages.
  A transition logs at most two messages, which do not depend on the log
  (\<open>narrate\<close>); \<open>addLog\<close> puts a message at the end and, when the log already holds 50
  entries or more, drops the first (oldest) entry. So the log after a transition is the
  log before it followed by the messages of the transition, without as many of the oldest
  entries as exceed 50: the entries keep their order, only the oldest ones leave, and as
  long as the total stays within 50 the log before is the beginning of the log after, every
  entry in its position. In a reachable state, and after a transition from it, the log
  holds at most 50 entries.
\<close>

theorem log_is_bounded_window:
  "length (narrate rs e s) \<le> 2 \<and>
   narrate rs e (s\<lparr>gameLog := lg\<rparr>) = narrate rs e s \<and>
   gameLog (step rs e s) =
     drop (if 50 \<le> length (gameLog s) then length (narrate rs e s)
           else length (gameLog s) + length (narrate rs e s) - 50)
       (gameLog s @ narrate rs e s) \<and>
   suffix (gameLog (step rs e s)) (gameLog s @ narrate rs e s) \<and>
   (length (gameLog s) + length (narrate rs e s) \<le> 50
      \<longrightarrow> gameLog (step rs e s) = gameLog s @ narrate rs e s) \<and>
   (reachable s \<longrightarrow> length (gameLog s) \<le> 50 \<and> length (gameLog (step rs e s)) \<le> 50) \<and>
   addLog m lg = (if length lg < 50 then lg @ [m] else tl lg @ [m])"
proof -
  note n = step_narrate [of rs e s]
  have a: "narrate rs e (s\<lparr>gameLog := lg\<rparr>) = narrate rs e s"
    by (simp add: narrate_def)
  have b: "gameLog (step rs e s) =
     drop (if 50 \<le> length (gameLog s) then length (narrate rs e s)
           else length (gameLog s) + length (narrate rs e s) - 50)
       (gameLog s @ narrate rs e s)"
    unfolding n(2) by (rule addLogs_exact)
  have c: "suffix (gameLog (step rs e s)) (gameLog s @ narrate rs e s)"
    unfolding n(2) by (rule addLogs_suffix)
  have d: "length (gameLog s) + length (narrate rs e s) \<le> 50
      \<longrightarrow> gameLog (step rs e s) = gameLog s @ narrate rs e s"
  proof
    assume h: "length (gameLog s) + length (narrate rs e s) \<le> 50"
    then have "length (gameLog s) \<le> 50" by simp
    then have "addLogs (narrate rs e s) (gameLog s)
        = drop (length (gameLog s @ narrate rs e s) - 50) (gameLog s @ narrate rs e s)"
      by (rule addLogs_window)
    with h show "gameLog (step rs e s) = gameLog s @ narrate rs e s"
      using n(2) by simp
  qed
  have e: "reachable s \<longrightarrow> length (gameLog s) \<le> 50 \<and> length (gameLog (step rs e s)) \<le> 50"
    using reachable_log reachable_step by blast
  have f: "addLog m lg = (if length lg < 50 then lg @ [m] else tl lg @ [m])"
    by (cases lg) (auto simp: addLog_def Let_def)
  from n(1) a b c d e f show ?thesis by blast
qed

theorem log_is_bounded_window_witness:
  "reachable stateLongLog \<and> length (gameLog stateLongLog) = 50 \<and>
   narrate [] ClickDeck stateLongLog = [''You drew a card.''] \<and>
   gameLog (step [] ClickDeck stateLongLog) = tl (gameLog stateLongLog) @ [''You drew a card.''] \<and>
   length (gameLog (step [] ClickDeck stateLongLog)) \<le> 50"
proof -
  have r: "reachable stateLongLog" by (rule reachable_examples)
  have l: "length (gameLog stateLongLog) = 50"
    using logCheck_stateLongLog by (simp add: logCheck_def)
  then have ne: "gameLog stateLongLog \<noteq> []" by auto
  note n = narrate_stateLongLog
  from log_is_bounded_window [of "[]" ClickDeck stateLongLog] r l ne
  show ?thesis
    by (simp add: n drop_Suc)
qed

text \<open>
  C10. On a non-human player's turn without attack, when the hand holds a legal move that
  is not a Jack, the card the turn plays is not a Jack: a Jack is chosen only when every
  legal move is a Jack.
\<close>

theorem ai_keeps_jacks:
  assumes "validMoves = filter (\<lambda>c. isValidMove c (topOf (discardPile s)) (activeSuit s) (attackStack s))
                          (hands s (currentTurn s))"
    and "currentTurn s \<noteq> south" and "winner s = None" and "\<not> isDealing s"
    and "attackStack s = 0" and "discardPile s \<noteq> []" and "validMoves \<noteq> []"
  shows "\<exists>c. aiChoice validMoves (last (discardPile s)) (activeSuit s) (attackStack s) = Some c \<and>
           performAITurn rs s = executePlay c (currentTurn s) s \<and>
           ((\<exists>x\<in>set validMoves. rank x \<noteq> RJ) \<longrightarrow> rank c \<noteq> RJ) \<and>
           (rank c = RJ \<longrightarrow> (\<forall>x\<in>set validMoves. rank x = RJ))"
proof -
  let ?t = "last (discardPile s)"
  have top: "topOf (discardPile s) = Some ?t"
    using assms(6) by (simp add: topOf_def)
  have vm: "validMoves = filter (\<lambda>c. isValidMove c (Some ?t) (activeSuit s) (attackStack s))
                           (hands s (currentTurn s))"
    using assms(1) top by simp
  have atk: "attackStack s \<le> 0" using assms(5) by simp
  obtain c where c: "aiChoice validMoves ?t (activeSuit s) (attackStack s) = Some c"
    using ai_priority_order_aux [OF vm assms(7)] by blast
  have turn: "performAITurn rs s = executePlay c (currentTurn s) s"
    using assms(2-4,7) top c vm by (simp add: performAITurn_def Let_def)
  have "rank c \<noteq> RJ" if "\<exists>x\<in>set validMoves. rank x \<noteq> RJ"
  proof (cases "List.find (\<lambda>x. rank x \<noteq> RJ \<and> suit x = activeSuit s) validMoves")
    case (Some x)
    with c aiChoice_no_attack(1) [OF vm atk] have "c = x" by simp
    with Some show ?thesis by (auto dest: find_in)
  next
    case None
    show ?thesis
    proof (cases "List.find (\<lambda>x. rank x \<noteq> RJ \<and> rank x = rank ?t) validMoves")
      case (Some y)
      with None c aiChoice_no_attack(1) [OF vm atk] have "c = y" by simp
      with Some show ?thesis by (auto dest: find_in)
    next
      case none2: None
      have "\<forall>x\<in>set validMoves. rank x = RJ"
        using None none2 by (rule aiChoice_no_attack(2) [OF vm atk])
      with that show ?thesis by blast
    qed
  qed
  then show ?thesis
    using c turn by blast
qed

theorem ai_keeps_jacks_witness:
  "reachable stateWestToMove \<and>
   cardOf ''card-35'' clubs RJ \<in> set (hands stateWestToMove (currentTurn stateWestToMove)) \<and>
   isValidMove (cardOf ''card-35'' clubs RJ) (topOf (discardPile stateWestToMove))
     (activeSuit stateWestToMove) (attackStack stateWestToMove) \<and>
   (\<exists>c. performAITurn [] stateWestToMove = executePlay c west stateWestToMove \<and> rank c \<noteq> RJ)"
proof -
  let ?s = "stateWestToMove"
  let ?hand = "[cardOf ''card-51'' spades RA, cardOf ''card-47'' spades R10,
       cardOf ''card-43'' spades R6, cardOf ''card-39'' spades R2, cardOf ''card-35'' clubs RJ,
       cardOf ''card-31'' clubs R7, cardOf ''card-27'' clubs R3, cardOf ''card-23'' diamonds RQ]"
  have r: "reachable ?s" by (rule reachable_examples)
  have o: "hands ?s west = ?hand" "topOf (discardPile ?s) = Some (cardOf ''card-24'' diamonds RK)"
    "currentTurn ?s = west" "activeSuit ?s = diamonds" "attackStack ?s = 0" "winner ?s = None"
    using observe_stateWestToMove by (simp_all add: observe_def)
  have nd: "\<not> isDealing ?s" and dp: "discardPile ?s \<noteq> []"
    using reachable_gameInv [OF r] by (simp_all add: gameInv_def)
  let ?vm = "filter (\<lambda>c. isValidMove c (topOf (discardPile ?s)) (activeSuit ?s) (attackStack ?s))
               (hands ?s (currentTurn ?s))"
  have vm: "?vm = [cardOf ''card-35'' clubs RJ, cardOf ''card-23'' diamonds RQ]"
    by (simp add: o isValidMove_def cardOf_def)
  have turn: "currentTurn ?s \<noteq> south" by (simp add: o)
  have ne: "?vm \<noteq> []" by (simp only: vm) simp
  have nj: "\<exists>x\<in>set ?vm. rank x \<noteq> RJ"
    by (simp only: vm) (simp add: cardOf_def)
  have j: "cardOf ''card-35'' clubs RJ \<in> set (hands ?s (currentTurn ?s))"
    "isValidMove (cardOf ''card-35'' clubs RJ) (topOf (discardPile ?s)) (activeSuit ?s) (attackStack ?s)"
    by (simp_all add: o isValidMove_def cardOf_def)
  from ai_keeps_jacks [OF refl turn o(6) nd o(5) dp ne, of "[]"] nj
  obtain c where "performAITurn [] ?s = executePlay c (currentTurn ?s) ?s" "rank c \<noteq> RJ"
    by blast
  then show ?thesis
    using r j o(3) by auto
qed

end
